theory Spec2Isabelle
  imports Main
begin

section \<open>Data model of disco/types/channel.py\<close>

text \<open>
  Python integers are unbounded, so snowflakes and permission bitmasks are \<open>int\<close>.
  A field that may hold \<open>None\<close> is an \<open>option\<close>.
\<close>

type_synonym snowflake = int
type_synonym PermissionValue = int

datatype error =
    AttributeError
  | IndexError
  | TypeError
  | StopIteration
  | Exception string
  | UpstreamError string

datatype PermissionOverwriteType = ROLE | MEMBER

record PermissionOverwrite =
  ow_id :: snowflake
  ow_type :: PermissionOverwriteType
  allow :: PermissionValue
  deny :: PermissionValue

record User =
  user_id :: snowflake

record GuildMember =
  roles :: "snowflake list"

text \<open>
  The guild is an external collaborator: only its member table and its own
  \<open>get_permissions\<close> (the guild base bitmask, which may raise) are used by the channel.
\<close>

record Guild =
  members :: "snowflake \<rightharpoonup> GuildMember"
  guild_get_permissions :: "User \<Rightarrow> error + PermissionValue"

text \<open>
  \<open>overwrites\<close> is a dict keyed by overwrite id; \<open>six.itervalues\<close> walks it in the
  dict's iteration order, so it is an association list in that order.
\<close>

record Channel =
  channel_id :: snowflake
  guild_id :: "snowflake option"
  overwrites :: "(snowflake \<times> PermissionOverwrite) list"

text \<open>Python truthiness of an optional integer: \<open>None\<close> and \<open>0\<close> are false.\<close>

definition truthy :: "snowflake option \<Rightarrow> bool" where
  "truthy x = (case x of None \<Rightarrow> False | Some v \<Rightarrow> v \<noteq> 0)"

section \<open>Permission resolution\<close>

text \<open>
  Modelled from the spec: \<open>PermissionValue.__isub__\<close> and \<open>PermissionValue.__iadd__\<close>
  (disco/types/permissions.py) are not part of the source at hand. The spec describes them
  as "remove denied bits, then add allowed bits".
\<close>

definition perm_sub :: "PermissionValue \<Rightarrow> PermissionValue \<Rightarrow> PermissionValue" where
  "perm_sub base d = and base (not d)"

definition perm_add :: "PermissionValue \<Rightarrow> PermissionValue \<Rightarrow> PermissionValue" where
  "perm_add base a = or base a"

text \<open>
  The body of the \<open>for ow in six.itervalues(self.overwrites)\<close> loop of
  \<open>Channel.get_permissions\<close>. \<open>member\<close> is the result of \<open>dict.get\<close>, so it may be
  \<open>None\<close>; \<open>member.roles\<close> is only evaluated when \<open>ow.id != user.id\<close> (short-circuit
  \<open>and\<close>) and raises \<open>AttributeError\<close> on \<open>None\<close>.
\<close>

fun overwrite_loop ::
  "User \<Rightarrow> GuildMember option \<Rightarrow> PermissionValue \<Rightarrow> PermissionOverwrite list
    \<Rightarrow> error + PermissionValue" where
  "overwrite_loop user member base [] = Inr base"
| "overwrite_loop user member base (ow # ows) =
    (if ow_id ow \<noteq> user_id user then
       (case member of
          None \<Rightarrow> Inl AttributeError
        | Some m \<Rightarrow>
            if ow_id ow \<notin> set (roles m) then overwrite_loop user member base ows
            else overwrite_loop user member (perm_add (perm_sub base (deny ow)) (allow ow)) ows)
     else overwrite_loop user member (perm_add (perm_sub base (deny ow)) (allow ow)) ows)"

text \<open>
  \<open>Channel.get_permissions\<close>. \<open>ADMINISTRATOR\<close> stands for the constant
  \<open>Permissions.ADMINISTRATOR\<close>, and \<open>guilds\<close> for \<open>self.client.state.guilds\<close>, through
  which the cached property \<open>self.guild\<close> is resolved (\<open>dict.get\<close>, so possibly \<open>None\<close>).
\<close>

definition get_permissions ::
  "PermissionValue \<Rightarrow> (snowflake \<rightharpoonup> Guild) \<Rightarrow> Channel \<Rightarrow> User \<Rightarrow> error + PermissionValue" where
  "get_permissions ADMINISTRATOR guilds self user =
    (if \<not> truthy (guild_id self) then Inr ADMINISTRATOR
     else
       (case guilds (the (guild_id self)) of
          None \<Rightarrow> Inl AttributeError
        | Some guild \<Rightarrow>
            (let member = members guild (user_id user) in
             case guild_get_permissions guild user of
               Inl e \<Rightarrow> Inl e
             | Inr base \<Rightarrow> overwrite_loop user member base (map snd (overwrites self)))))"

text \<open>The step the spec attributes to one overwrite: applied when it matches, skipped otherwise.\<close>

definition apply_overwrite ::
  "User \<Rightarrow> GuildMember \<Rightarrow> PermissionValue \<Rightarrow> PermissionOverwrite \<Rightarrow> PermissionValue" where
  "apply_overwrite user m base ow =
    (if ow_id ow = user_id user \<or> ow_id ow \<in> set (roles m)
     then perm_add (perm_sub base (deny ow)) (allow ow)
     else base)"

section \<open>Message deletion\<close>

text \<open>
  \<open>delete_messages\<close> accepts message objects or bare ids ("list[snowflake|Message]" in
  its docstring). \<open>to_snowflake\<close> (disco/util/snowflake.py, not part of the source at hand)
  maps either to the id; an id is returned as it is, which is what the second application
  inside \<open>delete_message\<close> relies on.
\<close>

record Message =
  msg_id :: snowflake

datatype msg_ref = Id snowflake | Msg Message

fun to_snowflake :: "msg_ref \<Rightarrow> snowflake" where
  "to_snowflake (Id i) = i"
| "to_snowflake (Msg m) = msg_id m"

text \<open>The calls made on \<open>self.client.api\<close>, recorded in the order they are issued.\<close>

datatype api_call =
    channels_messages_delete snowflake snowflake
  | channels_messages_delete_bulk snowflake "snowflake list"

text \<open>
  Modelled from the spec: \<open>chunks\<close> (disco/util/functional.py) is not part of the source
  at hand. The spec describes its use as "partition into pages of at most 100": consecutive
  slices \<open>obj[i:i + size]\<close> for \<open>i = 0, size, 2 * size, ...\<close>. Only \<open>size = 100\<close> is ever
  passed; a step of \<open>0\<close> is given no slices here.
\<close>

function chunks :: "'a list \<Rightarrow> nat \<Rightarrow> 'a list list" where
  "chunks obj n = (if obj = [] \<or> n = 0 then [] else take n obj # chunks (drop n obj) n)"
  by pat_completeness auto
termination
  by (relation "measure (\<lambda>(obj, n). length obj)") auto

declare chunks.simps [simp del]

definition delete_message :: "snowflake \<Rightarrow> msg_ref \<Rightarrow> api_call list" where
  "delete_message cid message = [channels_messages_delete cid (to_snowflake message)]"

text \<open>
  The module is written for Python 2 and Python 3 alike (\<open>six\<close>, \<open>next\<close> beside
  \<open>__next__\<close>), and the builtin \<open>map\<close> differs between them: a list in Python 2, a lazy
  map object in Python 3. A map object is always true and has no \<open>len\<close>.
\<close>

datatype python = PY2 | PY3

datatype 'a py_iterable = PyList "'a list" | PyMapObject "'a list"

fun py_map :: "python \<Rightarrow> ('a \<Rightarrow> 'b) \<Rightarrow> 'a list \<Rightarrow> 'b py_iterable" where
  "py_map PY2 f xs = PyList (map f xs)"
| "py_map PY3 f xs = PyMapObject (map f xs)"

fun py_bool :: "'a py_iterable \<Rightarrow> bool" where
  "py_bool (PyList xs) = (xs \<noteq> [])"
| "py_bool (PyMapObject xs) = True"

fun py_len :: "'a py_iterable \<Rightarrow> error + nat" where
  "py_len (PyList xs) = Inr (length xs)"
| "py_len (PyMapObject xs) = Inl TypeError"

fun py_items :: "'a py_iterable \<Rightarrow> 'a list" where
  "py_items (PyList xs) = xs"
| "py_items (PyMapObject xs) = xs"

text \<open>
  \<open>Channel.delete_messages\<close>, called with one list argument (the \<open>one_or_many\<close> decorator
  then passes it through), under either interpreter. The result is the sequence of API
  calls issued, or the exception raised; the only exception arises at \<open>len(messages)\<close>,
  before any call.
\<close>

definition delete_messages :: "python \<Rightarrow> snowflake \<Rightarrow> msg_ref list \<Rightarrow> error + api_call list" where
  "delete_messages py cid messages0 =
    (let messages = py_map py to_snowflake messages0 in
     if \<not> py_bool messages then Inr []
     else
       (case py_len messages of
          Inl e \<Rightarrow> Inl e
        | Inr n \<Rightarrow>
            if n \<le> 2
            then Inr (concat (map (\<lambda>msg. delete_message cid (Id msg)) (py_items messages)))
            else Inr (map (channels_messages_delete_bulk cid) (chunks (py_items messages) 100))))"

section \<open>Message iterator\<close>

datatype Direction = UP | DOWN

record MessageIterator =
  channel :: snowflake
  direction :: Direction
  bulk :: bool
  before :: "snowflake option"
  after :: "snowflake option"
  chunk_size :: int
  iter_last :: "Message option"
  buffer :: "Message list"

text \<open>
  \<open>self.client.api.channels_messages_list(channel, before=, after=, limit=)\<close>: the remote
  fetch, a parameter of the iterator's operations. It answers with a page of messages
  (\<open>Inr\<close>) or fails (\<open>Inl\<close>, with the failure's description), in which case the client
  raises and the exception passes through the iterator.
\<close>

type_synonym api =
  "snowflake \<Rightarrow> snowflake option \<Rightarrow> snowflake option \<Rightarrow> int \<Rightarrow> string + Message list"

text \<open>
  \<open>MessageIterator.__init__\<close>. \<open>any((before, after))\<close> tests truthiness, so a cursor of
  \<open>0\<close> counts like \<open>None\<close>.
\<close>

definition MessageIterator_init ::
  "snowflake \<Rightarrow> Direction \<Rightarrow> bool \<Rightarrow> snowflake option \<Rightarrow> snowflake option \<Rightarrow> int
    \<Rightarrow> error + MessageIterator" where
  "MessageIterator_init chan dir blk bef aft csize =
    (let self = \<lparr> channel = chan, direction = dir, bulk = blk, before = bef, after = aft,
                   chunk_size = csize, iter_last = None, buffer = [] \<rparr> in
     if \<not> (truthy bef \<or> truthy aft) \<and> direction self = DOWN
     then Inl (Exception ''Must specify either before or after for downward seeking'')
     else Inr self)"

text \<open>
  \<open>MessageIterator.fill\<close>. The object outlives a raised exception, so the state is
  returned in every outcome. A failing fetch raises before \<open>_buffer\<close> is assigned. The
  buffer is assigned before the emptiness test. In the \<open>else\<close> branch the source
  evaluates the comparison \<open>self.after == self._buffer[-1].id\<close> and discards its value:
  no field is assigned there.
\<close>

definition fill :: "api \<Rightarrow> MessageIterator \<Rightarrow> (error + unit) \<times> MessageIterator" where
  "fill client self =
    (case client (channel self) (before self) (after self) (chunk_size self) of
       Inl failure \<Rightarrow> (Inl (UpstreamError failure), self)
     | Inr page \<Rightarrow>
         (let self1 = self\<lparr>buffer := page\<rparr> in
          if length (buffer self1) = 0 then (Inl StopIteration, self1)
          else
            (let self2 = self1\<lparr>after := None\<rparr>;
                 self3 = self2\<lparr>before := None\<rparr> in
             if direction self3 = UP
             then (Inr (), self3\<lparr>before := Some (msg_id (last (buffer self3)))\<rparr>)
             else (Inr (), self3\<lparr>buffer := rev (buffer self3)\<rparr>))))"

datatype yielded = Single Message | Batch "Message list"

text \<open>\<open>MessageIterator.__next__\<close> (and \<open>next\<close>, which forwards to it).\<close>

definition iter_next :: "api \<Rightarrow> MessageIterator \<Rightarrow> (error + yielded) \<times> MessageIterator" where
  "iter_next client self =
    (case (if length (buffer self) = 0 then fill client self else (Inr (), self)) of
       (Inl e, s) \<Rightarrow> (Inl e, s)
     | (Inr u, s) \<Rightarrow>
         if bulk s then (Inr (Batch (buffer s)), s\<lparr>buffer := []\<rparr>)
         else if buffer s = [] then (Inl IndexError, s)
         else (Inr (Single (last (buffer s))), s\<lparr>buffer := butlast (buffer s)\<rparr>))"

text \<open>
  The states an iterator object can pass through: any sequence of \<open>fill\<close> and \<open>next\<close>
  calls, each against whatever the remote end answers at that moment.
\<close>

inductive reaches :: "MessageIterator \<Rightarrow> MessageIterator \<Rightarrow> bool" where
  reaches_refl: "reaches s s"
| reaches_fill: "reaches s s' \<Longrightarrow> reaches s (snd (fill client s'))"
| reaches_next: "reaches s s' \<Longrightarrow> reaches s (snd (iter_next client s'))"

text \<open>
  A consumer pulling until \<open>StopIteration\<close> (a \<open>for\<close> loop, or \<open>list(it)\<close>), with fuel
  bounding the number of pulls: \<open>None\<close> when the fuel runs out first, otherwise the values
  yielded, or the exception other than \<open>StopIteration\<close> that ended the loop.
\<close>

definition yield_more :: "'a list \<Rightarrow> (error + 'a list) option \<Rightarrow> (error + 'a list) option" where
  "yield_more ys r =
    (case r of
       None \<Rightarrow> None
     | Some (Inl e) \<Rightarrow> Some (Inl e)
     | Some (Inr zs) \<Rightarrow> Some (Inr (ys @ zs)))"

fun drain :: "api \<Rightarrow> nat \<Rightarrow> MessageIterator \<Rightarrow> (error + yielded list) option" where
  "drain client 0 self = None"
| "drain client (Suc n) self =
    (case iter_next client self of
       (Inl e, s) \<Rightarrow> Some (if e = StopIteration then Inr [] else Inl e)
     | (Inr y, s) \<Rightarrow> yield_more [y] (drain client n s))"

text \<open>
  The pages a scan fetches, whatever the yielding mode: \<open>fill\<close> is repeated, each time on
  the drained buffer, until it raises; the fuel bounds the number of fetches.
\<close>

fun scan :: "api \<Rightarrow> nat \<Rightarrow> MessageIterator \<Rightarrow> (error + Message list list) option" where
  "scan client 0 self = None"
| "scan client (Suc k) self =
    (case fill client self of
       (Inl e, s) \<Rightarrow> Some (if e = StopIteration then Inr [] else Inl e)
     | (Inr u, s) \<Rightarrow> yield_more [buffer s] (scan client k (s\<lparr>buffer := []\<rparr>)))"

text \<open>
  The same two views without an end: the values of the first \<open>n\<close> pulls, and the pages of
  the first \<open>k\<close> fetches, each cut short at the first exception. They are defined for
  scans that never end as well.
\<close>

fun pulls :: "api \<Rightarrow> nat \<Rightarrow> MessageIterator \<Rightarrow> yielded list" where
  "pulls client 0 self = []"
| "pulls client (Suc n) self =
    (case iter_next client self of
       (Inl e, s) \<Rightarrow> []
     | (Inr y, s) \<Rightarrow> y # pulls client n s)"

fun fetches :: "api \<Rightarrow> nat \<Rightarrow> MessageIterator \<Rightarrow> Message list list" where
  "fetches client 0 self = []"
| "fetches client (Suc k) self =
    (case fill client self of
       (Inl e, s) \<Rightarrow> []
     | (Inr u, s) \<Rightarrow> buffer s # fetches client k (s\<lparr>buffer := []\<rparr>))"

fun messages_of :: "yielded \<Rightarrow> Message list" where
  "messages_of (Single m) = [m]"
| "messages_of (Batch ms) = ms"

text \<open>
  Modelled from the spec: the remote end of \<open>channels_messages_list\<close> over a fixed channel
  history given oldest first, "listMessages(channelId, before?, after?, limit) -> ordered
  sequence of Message, newest-first": the \<open>limit\<close> messages next to the cursor (after
  \<open>after\<close> when it is given, otherwise the newest ones older than \<open>before\<close>, otherwise the
  newest ones), newest first.
\<close>

definition remote_history :: "Message list \<Rightarrow> api" where
  "remote_history history chan bef aft limit =
    (let older = (case bef of None \<Rightarrow> history | Some b \<Rightarrow> filter (\<lambda>m. msg_id m < b) history) in
     case aft of
       None \<Rightarrow> Inr (rev (drop (length older - nat limit) older))
     | Some a \<Rightarrow> Inr (rev (take (nat limit) (filter (\<lambda>m. a < msg_id m) older))))"

section \<open>Permission resolution: results\<close>

lemma overwrite_loop_foldl:
  "overwrite_loop user (Some m) base ows = Inr (foldl (apply_overwrite user m) base ows)"
  by (induction ows arbitrary: base) (simp_all add: apply_overwrite_def)

text \<open>
  C1. In a guild channel (\<open>guild_id\<close> set, the guild known to the client, the user a
  member of it, and the guild base bitmask computed as \<open>base\<close>), \<open>get_permissions\<close> returns
  the left fold of the base over the overwrites in iteration order, where a matching
  overwrite (its id is the user's id or one of the member's role ids) maps the running
  value \<open>b\<close> to \<open>(b - deny) + allow\<close> and every other overwrite leaves it unchanged. With no
  overwrites the result is the base itself.
\<close>

theorem get_permissions_guild_fold:
  assumes "guild_id self = Some g" and "g \<noteq> 0"
    and "guilds g = Some guild"
    and "members guild (user_id user) = Some m"
    and "guild_get_permissions guild user = Inr base"
  shows "get_permissions ADMINISTRATOR guilds self user =
           Inr (foldl (\<lambda>b ow.
                  if ow_id ow = user_id user \<or> ow_id ow \<in> set (roles m)
                  then perm_add (perm_sub b (deny ow)) (allow ow) else b)
                base (map snd (overwrites self)))
         \<and> (overwrites self = [] \<longrightarrow>
              get_permissions ADMINISTRATOR guilds self user = Inr base)"
proof -
  have step: "apply_overwrite user m =
      (\<lambda>b ow. if ow_id ow = user_id user \<or> ow_id ow \<in> set (roles m)
               then perm_add (perm_sub b (deny ow)) (allow ow) else b)"
    by (intro ext) (simp add: apply_overwrite_def)
  have run: "get_permissions ADMINISTRATOR guilds self user =
      overwrite_loop user (Some m) base (map snd (overwrites self))"
    using assms by (simp add: get_permissions_def truthy_def)
  show ?thesis
    by (simp add: run overwrite_loop_foldl step)
qed

theorem get_permissions_guild_fold_witness:
  "get_permissions 8
     (Map.empty(5 \<mapsto> \<lparr>members = Map.empty(1 \<mapsto> \<lparr>roles = [10]\<rparr>), guild_get_permissions = (\<lambda>u. Inr 3)\<rparr>))
     \<lparr>channel_id = 2, guild_id = Some 5,
      overwrites = [(10, \<lparr>ow_id = 10, ow_type = ROLE, allow = 4, deny = 1\<rparr>),
                    (7, \<lparr>ow_id = 7, ow_type = MEMBER, allow = 16, deny = 2\<rparr>)]\<rparr>
     \<lparr>user_id = 1\<rparr> = Inr 6"
  using get_permissions_guild_fold [of
     "\<lparr>channel_id = 2, guild_id = Some 5,
      overwrites = [(10, \<lparr>ow_id = 10, ow_type = ROLE, allow = 4, deny = 1\<rparr>),
                    (7, \<lparr>ow_id = 7, ow_type = MEMBER, allow = 16, deny = 2\<rparr>)]\<rparr>"
     5
     "Map.empty(5 \<mapsto> \<lparr>members = Map.empty(1 \<mapsto> \<lparr>roles = [10]\<rparr>), guild_get_permissions = (\<lambda>u. Inr 3)\<rparr>)"
     "\<lparr>members = Map.empty(1 \<mapsto> \<lparr>roles = [10]\<rparr>), guild_get_permissions = (\<lambda>u. Inr 3)\<rparr>"
     "\<lparr>user_id = 1\<rparr>" "\<lparr>roles = [10]\<rparr>" 3 8]
  by (simp add: perm_sub_def perm_add_def)

text \<open>
  C4. A channel without a \<open>guild_id\<close> grants \<open>Permissions.ADMINISTRATOR\<close> to every user,
  whatever overwrites are attached to it: neither the guild, nor the member, nor the
  overwrites are consulted.
\<close>

theorem get_permissions_non_guild:
  assumes "guild_id self = None"
  shows "get_permissions ADMINISTRATOR guilds self user = Inr ADMINISTRATOR"
  using assms by (simp add: get_permissions_def truthy_def)

theorem get_permissions_non_guild_witness:
  "get_permissions 8 Map.empty
     \<lparr>channel_id = 2, guild_id = None,
      overwrites = [(1, \<lparr>ow_id = 1, ow_type = MEMBER, allow = 0, deny = 8\<rparr>)]\<rparr>
     \<lparr>user_id = 1\<rparr> = Inr 8"
  using get_permissions_non_guild [of
     "\<lparr>channel_id = 2, guild_id = None,
      overwrites = [(1, \<lparr>ow_id = 1, ow_type = MEMBER, allow = 0, deny = 8\<rparr>)]\<rparr>" 8 Map.empty "\<lparr>user_id = 1\<rparr>"]
  by simp

text \<open>
  C9. The per-overwrite merge depends on the order in which the overwrites are visited:
  there are a guild base bitmask and two overwrites \<open>A\<close> (through a role) and \<open>B\<close> (through
  the user's id), both matching the same user and disagreeing on one bit, such that the
  channel that iterates \<open>A\<close> then \<open>B\<close> and the channel that iterates \<open>B\<close> then \<open>A\<close> give
  different permissions.
\<close>

theorem overwrite_merge_not_commutative:
  "\<exists>guilds c1 c2 user g guild m base A B.
      guild_id c1 = Some g \<and> guild_id c2 = Some g \<and> guilds g = Some guild
    \<and> members guild (user_id user) = Some m
    \<and> guild_get_permissions guild user = Inr base
    \<and> (ow_id A = user_id user \<or> ow_id A \<in> set (roles m))
    \<and> (ow_id B = user_id user \<or> ow_id B \<in> set (roles m))
    \<and> overwrites c1 = [(ow_id A, A), (ow_id B, B)]
    \<and> overwrites c2 = [(ow_id B, B), (ow_id A, A)]
    \<and> get_permissions ADMINISTRATOR guilds c1 user \<noteq> get_permissions ADMINISTRATOR guilds c2 user"
proof -
  let ?A = "\<lparr>ow_id = 10, ow_type = ROLE, allow = 0, deny = 1\<rparr>"
  let ?B = "\<lparr>ow_id = 1, ow_type = MEMBER, allow = 1, deny = 0\<rparr>"
  let ?m = "\<lparr>roles = [10]\<rparr>"
  let ?guild = "\<lparr>members = Map.empty(1 \<mapsto> ?m), guild_get_permissions = (\<lambda>u. Inr 0)\<rparr>"
  let ?guilds = "Map.empty(5 \<mapsto> ?guild)"
  let ?c1 = "\<lparr>channel_id = 2, guild_id = Some 5, overwrites = [(10, ?A), (1, ?B)]\<rparr>"
  let ?c2 = "\<lparr>channel_id = 2, guild_id = Some 5, overwrites = [(1, ?B), (10, ?A)]\<rparr>"
  let ?user = "\<lparr>user_id = 1\<rparr>"
  have r1: "get_permissions ADMINISTRATOR ?guilds ?c1 ?user = Inr 1"
    by (simp add: get_permissions_def truthy_def perm_sub_def perm_add_def)
  have r2: "get_permissions ADMINISTRATOR ?guilds ?c2 ?user = Inr 0"
    by (simp add: get_permissions_def truthy_def perm_sub_def perm_add_def)
  have "guild_id ?c1 = Some 5 \<and> guild_id ?c2 = Some 5 \<and> ?guilds 5 = Some ?guild
    \<and> members ?guild (user_id ?user) = Some ?m
    \<and> guild_get_permissions ?guild ?user = Inr 0
    \<and> (ow_id ?A = user_id ?user \<or> ow_id ?A \<in> set (roles ?m))
    \<and> (ow_id ?B = user_id ?user \<or> ow_id ?B \<in> set (roles ?m))
    \<and> overwrites ?c1 = [(ow_id ?A, ?A), (ow_id ?B, ?B)]
    \<and> overwrites ?c2 = [(ow_id ?B, ?B), (ow_id ?A, ?A)]
    \<and> get_permissions ADMINISTRATOR ?guilds ?c1 ?user \<noteq> get_permissions ADMINISTRATOR ?guilds ?c2 ?user"
    unfolding r1 r2 by simp
  then show ?thesis by blast
qed

section \<open>Message iterator: cursors\<close>

lemma fill_cases:
  "fill client self =
    (case client (channel self) (before self) (after self) (chunk_size self) of
       Inl failure \<Rightarrow> (Inl (UpstreamError failure), self)
     | Inr page \<Rightarrow>
         if page = [] then (Inl StopIteration, self\<lparr>buffer := []\<rparr>)
         else if direction self = UP
           then (Inr (), self\<lparr>buffer := page, after := None, before := Some (msg_id (last page))\<rparr>)
           else (Inr (), self\<lparr>buffer := rev page, after := None, before := None\<rparr>))"
  by (simp add: fill_def Let_def split: sum.splits)

lemma fill_page:
  "client (channel self) (before self) (after self) (chunk_size self) = Inr page \<Longrightarrow>
   fill client self =
     (if page = [] then (Inl StopIteration, self\<lparr>buffer := []\<rparr>)
      else if direction self = UP
        then (Inr (), self\<lparr>buffer := page, after := None, before := Some (msg_id (last page))\<rparr>)
        else (Inr (), self\<lparr>buffer := rev page, after := None, before := None\<rparr>))"
  by (simp add: fill_cases)

lemma fill_success_fields:
  assumes "fill client self = (Inr (), s)"
  shows "after s = None" and "direction s = direction self" and "buffer s \<noteq> []"
    and "channel s = channel self" and "chunk_size s = chunk_size self" and "bulk s = bulk self"
    and "direction self = DOWN \<Longrightarrow> before s = None"
    and "direction self = UP \<Longrightarrow> before s = Some (msg_id (last (buffer s)))"
  using assms by (auto simp: fill_cases split: if_splits sum.splits)

lemma fill_keeps:
  "direction (snd (fill client s)) = direction s"
  "channel (snd (fill client s)) = channel s"
  "chunk_size (snd (fill client s)) = chunk_size s"
  "bulk (snd (fill client s)) = bulk s"
  by (simp_all add: fill_cases split: sum.splits)

lemma fill_after_None:
  "after s = None \<Longrightarrow> after (snd (fill client s)) = None"
  by (simp add: fill_cases split: sum.splits)

lemma fill_before_None_DOWN:
  "direction s = DOWN \<Longrightarrow> before s = None \<Longrightarrow> before (snd (fill client s)) = None"
  by (simp add: fill_cases split: sum.splits)

lemma iter_next_keeps:
  "direction (snd (iter_next client s)) = direction s"
  "channel (snd (iter_next client s)) = channel s"
  "chunk_size (snd (iter_next client s)) = chunk_size s"
  "bulk (snd (iter_next client s)) = bulk s"
  by (simp_all add: iter_next_def fill_cases split: sum.splits)

lemma iter_next_after_None:
  "after s = None \<Longrightarrow> after (snd (iter_next client s)) = None"
  by (simp add: iter_next_def fill_cases split: sum.splits)

lemma iter_next_before_None_DOWN:
  "direction s = DOWN \<Longrightarrow> before s = None \<Longrightarrow> before (snd (iter_next client s)) = None"
  by (simp add: iter_next_def fill_cases split: sum.splits)

lemma reaches_keeps:
  "reaches s s' \<Longrightarrow> direction s' = direction s \<and> channel s' = channel s \<and> chunk_size s' = chunk_size s"
  by (induction rule: reaches.induct) (simp_all add: fill_keeps iter_next_keeps)

lemma reaches_after_None:
  "reaches s s' \<Longrightarrow> after s = None \<Longrightarrow> after s' = None"
  by (induction rule: reaches.induct) (simp_all add: fill_after_None iter_next_after_None)

lemma reaches_before_None_DOWN:
  "reaches s s' \<Longrightarrow> direction s = DOWN \<Longrightarrow> before s = None \<Longrightarrow> before s' = None"
  by (induction rule: reaches.induct)
     (simp_all add: fill_before_None_DOWN iter_next_before_None_DOWN reaches_keeps)

text \<open>
  C10. A successful \<open>fill\<close> leaves the \<open>after\<close> cursor at \<open>None\<close>, in both directions, and
  it stays \<open>None\<close> through all later \<open>fill\<close> and \<open>next\<close> calls. Only the \<open>UP\<close> branch
  assigns a cursor (\<open>before\<close>, the id of the last message of the page). For a \<open>DOWN\<close>
  iterator both cursors are \<open>None\<close> from the first successful \<open>fill\<close> on, so every
  later fetch is the request with neither \<open>before\<close> nor \<open>after\<close>.
\<close>

theorem fill_after_cursor_None:
  assumes "fill client self = (Inr (), s1)" and "reaches s1 s2"
  shows "after s1 = None \<and> after s2 = None
       \<and> (direction self = UP \<longrightarrow> before s1 = Some (msg_id (last (buffer s1))))
       \<and> (direction self = DOWN \<longrightarrow>
            before s1 = None \<and> before s2 = None
          \<and> (\<forall>client'. fill client' s2 =
                (case client' (channel self) None None (chunk_size self) of
                   Inl failure \<Rightarrow> (Inl (UpstreamError failure), s2)
                 | Inr page \<Rightarrow>
                     if page = [] then (Inl StopIteration, s2\<lparr>buffer := []\<rparr>)
                     else (Inr (), s2\<lparr>buffer := rev page\<rparr>))))"
proof -
  note f = fill_success_fields [OF assms(1)]
  have a2: "after s2 = None"
    using reaches_after_None [OF assms(2)] f(1) by simp
  have k: "direction s2 = direction self" "channel s2 = channel self" "chunk_size s2 = chunk_size self"
    using reaches_keeps [OF assms(2)] f by simp_all
  have down: "fill client' s2 =
                (case client' (channel self) None None (chunk_size self) of
                   Inl failure \<Rightarrow> (Inl (UpstreamError failure), s2)
                 | Inr page \<Rightarrow>
                     if page = [] then (Inl StopIteration, s2\<lparr>buffer := []\<rparr>)
                     else (Inr (), s2\<lparr>buffer := rev page\<rparr>))"
    if d: "direction self = DOWN" and b2: "before s2 = None" for client'
    using d b2 a2 k by (simp add: fill_cases split: sum.splits)
  have b2: "before s2 = None" if d: "direction self = DOWN"
    using reaches_before_None_DOWN [OF assms(2)] f d by simp
  show ?thesis
    using f a2 b2 down by simp
qed

theorem fill_after_cursor_None_witness:
  "fill (remote_history [\<lparr>msg_id = 1\<rparr>, \<lparr>msg_id = 2\<rparr>, \<lparr>msg_id = 3\<rparr>])
     \<lparr>channel = 7, direction = DOWN, bulk = False, before = None, after = Some 1,
      chunk_size = 2, iter_last = None, buffer = []\<rparr>
   = (Inr (), \<lparr>channel = 7, direction = DOWN, bulk = False, before = None, after = None,
               chunk_size = 2, iter_last = None, buffer = [\<lparr>msg_id = 2\<rparr>, \<lparr>msg_id = 3\<rparr>]\<rparr>)
   \<and> after (snd (iter_next (remote_history [\<lparr>msg_id = 1\<rparr>, \<lparr>msg_id = 2\<rparr>, \<lparr>msg_id = 3\<rparr>])
        \<lparr>channel = 7, direction = DOWN, bulk = False, before = None, after = None,
         chunk_size = 2, iter_last = None, buffer = [\<lparr>msg_id = 2\<rparr>, \<lparr>msg_id = 3\<rparr>]\<rparr>)) = None
   \<and> before (snd (iter_next (remote_history [\<lparr>msg_id = 1\<rparr>, \<lparr>msg_id = 2\<rparr>, \<lparr>msg_id = 3\<rparr>])
        \<lparr>channel = 7, direction = DOWN, bulk = False, before = None, after = None,
         chunk_size = 2, iter_last = None, buffer = [\<lparr>msg_id = 2\<rparr>, \<lparr>msg_id = 3\<rparr>]\<rparr>)) = None"
proof -
  let ?H = "[\<lparr>msg_id = 1\<rparr>, \<lparr>msg_id = 2\<rparr>, \<lparr>msg_id = 3\<rparr>]"
  let ?s0 = "\<lparr>channel = 7, direction = DOWN, bulk = False, before = None, after = Some 1,
      chunk_size = 2, iter_last = None, buffer = []\<rparr>"
  let ?s1 = "\<lparr>channel = 7, direction = DOWN, bulk = False, before = None, after = None,
               chunk_size = 2, iter_last = None, buffer = [\<lparr>msg_id = 2\<rparr>, \<lparr>msg_id = 3\<rparr>]\<rparr>"
  have h1: "fill (remote_history ?H) ?s0 = (Inr (), ?s1)"
    by (simp add: fill_cases remote_history_def Let_def)
  have h2: "reaches ?s1 (snd (iter_next (remote_history ?H) ?s1))"
    by (rule reaches_next) (rule reaches_refl)
  show ?thesis
    using h1 fill_after_cursor_None [OF h1 h2] by simp
qed

text \<open>
  C2. The \<open>DOWN\<close> branch of \<open>fill\<close> at a concrete scan: history \<open>m1, m2, m3\<close>, an iterator
  constructed with \<open>after = m1.id\<close> and \<open>chunk_size = 2\<close>. The first \<open>fill\<close> fetches the page
  and reverses it to \<open>[m2, m3]\<close>, but \<open>after\<close> is \<open>None\<close> afterwards, not \<open>m3.id\<close>; the next
  \<open>fill\<close> (buffer drained) therefore asks without a cursor and receives \<open>m2, m3\<close> again.
\<close>

theorem fill_down_after_not_assigned:
  "MessageIterator_init 7 DOWN False None (Some 1) 2 =
     Inr \<lparr>channel = 7, direction = DOWN, bulk = False, before = None, after = Some 1,
          chunk_size = 2, iter_last = None, buffer = []\<rparr>
   \<and> fill (remote_history [\<lparr>msg_id = 1\<rparr>, \<lparr>msg_id = 2\<rparr>, \<lparr>msg_id = 3\<rparr>])
        \<lparr>channel = 7, direction = DOWN, bulk = False, before = None, after = Some 1,
         chunk_size = 2, iter_last = None, buffer = []\<rparr>
     = (Inr (), \<lparr>channel = 7, direction = DOWN, bulk = False, before = None, after = None,
                 chunk_size = 2, iter_last = None, buffer = [\<lparr>msg_id = 2\<rparr>, \<lparr>msg_id = 3\<rparr>]\<rparr>)
   \<and> fill (remote_history [\<lparr>msg_id = 1\<rparr>, \<lparr>msg_id = 2\<rparr>, \<lparr>msg_id = 3\<rparr>])
        \<lparr>channel = 7, direction = DOWN, bulk = False, before = None, after = None,
         chunk_size = 2, iter_last = None, buffer = []\<rparr>
     = (Inr (), \<lparr>channel = 7, direction = DOWN, bulk = False, before = None, after = None,
                 chunk_size = 2, iter_last = None, buffer = [\<lparr>msg_id = 2\<rparr>, \<lparr>msg_id = 3\<rparr>]\<rparr>)"
  by (simp add: MessageIterator_init_def truthy_def fill_cases remote_history_def Let_def)

section \<open>Message iterator: construction\<close>

text \<open>
  C5. A \<open>DOWN\<close> iterator constructed with the cursor \<open>after = 0\<close> (and no \<open>before\<close>) is
  rejected with the exception meant for a missing cursor: the constructor tests the
  truthiness of the cursors, and \<open>0\<close> is false.
\<close>

theorem MessageIterator_init_zero_cursor_rejected:
  "MessageIterator_init 7 DOWN False None (Some 0) 100 =
     Inl (Exception ''Must specify either before or after for downward seeking'')"
  by (simp add: MessageIterator_init_def truthy_def)

text \<open>
  Apart from a cursor of \<open>0\<close>, construction behaves as specified: \<open>DOWN\<close> with both cursors
  \<open>None\<close> raises, and \<open>UP\<close>, or any non-zero cursor, gives an iterator that stores the
  arguments, with an empty buffer.
\<close>

lemma MessageIterator_init_specified:
  "(dir = DOWN \<and> bef = None \<and> aft = None \<longrightarrow>
      MessageIterator_init chan dir blk bef aft csize =
        Inl (Exception ''Must specify either before or after for downward seeking''))
   \<and> (dir = UP \<or> (\<exists>b. bef = Some b \<and> b \<noteq> 0) \<or> (\<exists>a. aft = Some a \<and> a \<noteq> 0) \<longrightarrow>
      MessageIterator_init chan dir blk bef aft csize =
        Inr \<lparr>channel = chan, direction = dir, bulk = blk, before = bef, after = aft,
             chunk_size = csize, iter_last = None, buffer = []\<rparr>)"
  by (cases dir) (auto simp: MessageIterator_init_def truthy_def split: option.splits)

section \<open>Message iterator: end of sequence\<close>

text \<open>
  C6. \<open>fill\<close>, called on an empty buffer as \<open>__next__\<close> calls it, raises \<open>StopIteration\<close>
  if and only if the remote fetch returns an empty page, and then leaves the iterator as
  it was: cursors, buffer and every other field. Seen from the caller, a pull ends the
  sequence exactly when the buffer is empty and the fetch returns an empty page, and the
  iterator is unchanged after it.
\<close>

theorem fill_stop_iff_empty_page:
  assumes "buffer self = []"
  shows "(fst (fill client self) = Inl StopIteration \<longleftrightarrow>
            client (channel self) (before self) (after self) (chunk_size self) = Inr [])
       \<and> (fst (fill client self) = Inl StopIteration \<longrightarrow>
            before (snd (fill client self)) = before self
          \<and> after (snd (fill client self)) = after self
          \<and> buffer (snd (fill client self)) = buffer self
          \<and> snd (fill client self) = self)
       \<and> (fst (iter_next client self) = Inl StopIteration \<longleftrightarrow>
            client (channel self) (before self) (after self) (chunk_size self) = Inr [])
       \<and> (fst (iter_next client self) = Inl StopIteration \<longrightarrow> snd (iter_next client self) = self)"
proof -
  have e: "self\<lparr>buffer := []\<rparr> = self"
    using assms by simp
  have f: "fst (fill client self) = Inl StopIteration \<longleftrightarrow>
            client (channel self) (before self) (after self) (chunk_size self) = Inr []"
    by (simp add: fill_cases split: sum.splits)
  have g: "snd (fill client self) = self" if "fst (fill client self) = Inl StopIteration"
    using that e by (simp add: fill_cases split: sum.splits if_splits)
  have n: "iter_next client self =
      (case fill client self of
         (Inl e, s) \<Rightarrow> (Inl e, s)
       | (Inr u, s) \<Rightarrow>
           if bulk s then (Inr (Batch (buffer s)), s\<lparr>buffer := []\<rparr>)
           else if buffer s = [] then (Inl IndexError, s)
           else (Inr (Single (last (buffer s))), s\<lparr>buffer := butlast (buffer s)\<rparr>))"
    using assms by (simp add: iter_next_def)
  have h: "fst (iter_next client self) = Inl StopIteration \<longleftrightarrow>
            fst (fill client self) = Inl StopIteration"
    unfolding n by (simp add: fill_cases split: sum.splits)
  have i: "snd (iter_next client self) = self" if "fst (iter_next client self) = Inl StopIteration"
  proof -
    from that h have st: "fst (fill client self) = Inl StopIteration" by simp
    then have "snd (iter_next client self) = snd (fill client self)"
      unfolding n by (cases "fill client self") auto
    with g [OF st] show ?thesis by simp
  qed
  show ?thesis
    using f g h i by simp
qed

theorem fill_stop_iff_empty_page_witness:
  "fst (fill (remote_history [])
     \<lparr>channel = 7, direction = UP, bulk = False, before = Some 9, after = None,
      chunk_size = 100, iter_last = None, buffer = []\<rparr>) = Inl StopIteration
   \<and> snd (fill (remote_history [])
     \<lparr>channel = 7, direction = UP, bulk = False, before = Some 9, after = None,
      chunk_size = 100, iter_last = None, buffer = []\<rparr>)
     = \<lparr>channel = 7, direction = UP, bulk = False, before = Some 9, after = None,
        chunk_size = 100, iter_last = None, buffer = []\<rparr>
   \<and> fst (fill (remote_history [\<lparr>msg_id = 1\<rparr>])
     \<lparr>channel = 7, direction = UP, bulk = False, before = Some 9, after = None,
      chunk_size = 100, iter_last = None, buffer = []\<rparr>) \<noteq> Inl StopIteration"
proof -
  let ?s = "\<lparr>channel = 7, direction = UP, bulk = False, before = Some 9, after = None,
      chunk_size = 100, iter_last = None, buffer = []\<rparr>"
  have b: "buffer ?s = []"
    by simp
  have e: "remote_history [] (channel ?s) (before ?s) (after ?s) (chunk_size ?s) = Inr []"
    by (simp add: remote_history_def)
  have n: "remote_history [\<lparr>msg_id = 1\<rparr>] (channel ?s) (before ?s) (after ?s) (chunk_size ?s) \<noteq> Inr []"
    by (simp add: remote_history_def)
  show ?thesis
    using e n fill_stop_iff_empty_page [OF b, of "remote_history []"]
      fill_stop_iff_empty_page [OF b, of "remote_history [\<lparr>msg_id = 1\<rparr>]"]
    by simp
qed

text \<open>
  In any state, a \<open>fill\<close> that raises \<open>StopIteration\<close> has stored the empty page it
  fetched and touched nothing else.
\<close>

lemma fill_stop_state:
  "fst (fill client self) = Inl StopIteration \<Longrightarrow> snd (fill client self) = self\<lparr>buffer := []\<rparr>"
  by (simp add: fill_cases split: sum.splits if_splits)

section \<open>Message deletion: results\<close>

lemma chunks_Nil: "chunks [] n = []"
  by (simp add: chunks.simps)

lemma chunks_step:
  "obj \<noteq> [] \<Longrightarrow> 0 < n \<Longrightarrow> chunks obj n = take n obj # chunks (drop n obj) n"
  by (subst chunks.simps) simp

lemma concat_chunks: "0 < n \<Longrightarrow> concat (chunks obj n) = obj"
proof (induction obj n rule: chunks.induct)
  case (1 obj n)
  show ?case
  proof (cases "obj = []")
    case True
    then show ?thesis by (simp add: chunks_Nil)
  next
    case False
    with 1 show ?thesis by (simp add: chunks_step)
  qed
qed

lemma chunks_member_bounds:
  "c \<in> set (chunks obj n) \<Longrightarrow> c \<noteq> [] \<and> length c \<le> n"
proof (induction obj n rule: chunks.induct)
  case (1 obj n)
  show ?case
  proof (cases "obj = [] \<or> n = 0")
    case True
    with 1(2) show ?thesis by (simp add: chunks.simps)
  next
    case False
    then have "chunks obj n = take n obj # chunks (drop n obj) n"
      by (simp add: chunks_step)
    with 1 False show ?thesis by auto
  qed
qed

lemma chunks_nth:
  "i < length (chunks obj n) \<Longrightarrow> chunks obj n ! i = take n (drop (i * n) obj)"
proof (induction obj n arbitrary: i rule: chunks.induct)
  case (1 obj n)
  show ?case
  proof (cases "obj = [] \<or> n = 0")
    case True
    with 1(2) show ?thesis by (simp add: chunks.simps)
  next
    case False
    then have st: "chunks obj n = take n obj # chunks (drop n obj) n"
      by (simp add: chunks_step)
    show ?thesis
    proof (cases i)
      case 0
      then show ?thesis by (simp add: st)
    next
      case (Suc j)
      with 1(2) st have "j < length (chunks (drop n obj) n)" by simp
      from 1(1) [OF False this] Suc st show ?thesis
        by (simp add: add.commute)
    qed
  qed
qed

lemma length_chunks:
  "0 < n \<Longrightarrow> length (chunks obj n) = (length obj + n - 1) div n"
proof (induction obj n rule: chunks.induct)
  case (1 obj n)
  show ?case
  proof (cases "obj = []")
    case True
    with 1(2) show ?thesis by (simp add: chunks_Nil)
  next
    case False
    then have st: "chunks obj n = take n obj # chunks (drop n obj) n"
      using 1(2) by (simp add: chunks_step)
    have ih: "length (chunks (drop n obj) n) = (length obj - n + n - 1) div n"
      using 1 False by simp
    show ?thesis
    proof (cases "length obj \<le> n")
      case True
      from False obtain k where "length obj = Suc k" by (cases obj) auto
      with True have "n * 1 \<le> length obj + n - 1" and "length obj + n - 1 < n * Suc 1"
        by simp_all
      then have "(length obj + n - 1) div n = 1"
        by (rule div_nat_eqI)
      with True ih 1(2) show ?thesis by (simp add: st)
    next
      case False
      then have "length obj + n - 1 = (length obj - n + n - 1) + n" by simp
      then have "(length obj + n - 1) div n = Suc ((length obj - n + n - 1) div n)"
        using 1(2) by (metis div_add_self2 less_numeral_extra(3) Suc_eq_plus1)
      with ih show ?thesis by (simp add: st)
    qed
  qed
qed

text \<open>
  C8. Under Python 3 \<open>delete_messages\<close> issues no API call at all: \<open>map\<close> returns a map
  object, which is true even when empty, and \<open>len(messages)\<close> raises \<open>TypeError\<close>. This
  is so for one message, for two, and for 150.
\<close>

theorem delete_messages_PY3_TypeError:
  "delete_messages PY3 7 [Msg \<lparr>msg_id = 11\<rparr>] = Inl TypeError
   \<and> delete_messages PY3 7 [Msg \<lparr>msg_id = 11\<rparr>, Id 12] = Inl TypeError
   \<and> delete_messages PY3 7 (map Id [1..150]) = Inl TypeError"
  by (simp add: delete_messages_def)

lemma delete_messages_PY3_always:
  "delete_messages PY3 cid messages = Inl TypeError"
  by (simp add: delete_messages_def)

text \<open>
  Under Python 2, where \<open>map\<close> returns a list, the selection is as specified. One or two
  messages are deleted by that many single-delete calls, in order, and no bulk call. More
  than two messages are deleted by bulk calls only, one per chunk, where the chunks are
  the consecutive slices of at most 100 ids that concatenate to the list (the \<open>i\<close>-th
  chunk is \<open>ids[100 i : 100 i + 100]\<close>); 150 messages give exactly two bulk calls, of 100
  and of 50 ids.
\<close>

lemma delete_messages_PY2_policy:
  "(length messages = 1 \<or> length messages = 2 \<longrightarrow>
      delete_messages PY2 cid messages =
        Inr (map (\<lambda>m. channels_messages_delete cid (to_snowflake m)) messages))
   \<and> (2 < length messages \<longrightarrow>
        delete_messages PY2 cid messages =
          Inr (map (channels_messages_delete_bulk cid) (chunks (map to_snowflake messages) 100))
      \<and> concat (chunks (map to_snowflake messages) 100) = map to_snowflake messages
      \<and> (\<forall>c \<in> set (chunks (map to_snowflake messages) 100). c \<noteq> [] \<and> length c \<le> 100)
      \<and> (\<forall>i < length (chunks (map to_snowflake messages) 100).
            chunks (map to_snowflake messages) 100 ! i =
              take 100 (drop (i * 100) (map to_snowflake messages)))
      \<and> length (chunks (map to_snowflake messages) 100) = (length messages + 99) div 100)
   \<and> (length messages = 150 \<longrightarrow>
        delete_messages PY2 cid messages =
          Inr [channels_messages_delete_bulk cid (take 100 (map to_snowflake messages)),
               channels_messages_delete_bulk cid (drop 100 (map to_snowflake messages))]
      \<and> length (take 100 (map to_snowflake messages)) = 100
      \<and> length (drop 100 (map to_snowflake messages)) = 50)"
proof (intro conjI impI)
  assume "length messages = 1 \<or> length messages = 2"
  then have "messages \<noteq> []" and "length messages \<le> 2" by auto
  then show "delete_messages PY2 cid messages =
        Inr (map (\<lambda>m. channels_messages_delete cid (to_snowflake m)) messages)"
    by (simp add: delete_messages_def delete_message_def Let_def comp_def concat_map_singleton)
next
  assume "2 < length messages"
  then have "messages \<noteq> []" and "\<not> length messages \<le> 2" by auto
  then show "delete_messages PY2 cid messages =
          Inr (map (channels_messages_delete_bulk cid) (chunks (map to_snowflake messages) 100))"
    by (simp add: delete_messages_def Let_def)
next
  show "concat (chunks (map to_snowflake messages) 100) = map to_snowflake messages"
    by (simp add: concat_chunks)
next
  show "\<forall>c \<in> set (chunks (map to_snowflake messages) 100). c \<noteq> [] \<and> length c \<le> 100"
    using chunks_member_bounds by blast
next
  show "\<forall>i < length (chunks (map to_snowflake messages) 100).
            chunks (map to_snowflake messages) 100 ! i =
              take 100 (drop (i * 100) (map to_snowflake messages))"
    using chunks_nth by blast
next
  show "length (chunks (map to_snowflake messages) 100) = (length messages + 99) div 100"
    by (simp add: length_chunks)
next
  assume l: "length messages = 150"
  let ?ids = "map to_snowflake messages"
  have ne: "?ids \<noteq> []" using l by auto
  have d: "drop 100 ?ids \<noteq> []" using l by simp
  have dd: "drop 100 (drop 100 ?ids) = []" using l by simp
  have "chunks ?ids 100 = take 100 ?ids # chunks (drop 100 ?ids) 100"
    using ne by (simp add: chunks_step)
  also have "chunks (drop 100 ?ids) 100 = take 100 (drop 100 ?ids) # chunks (drop 100 (drop 100 ?ids)) 100"
    using d by (rule chunks_step) simp
  also have "chunks (drop 100 (drop 100 ?ids)) 100 = []"
    unfolding dd by (rule chunks_Nil)
  also have "take 100 (drop 100 ?ids) = drop 100 ?ids"
    using l by simp
  finally have c: "chunks ?ids 100 = [take 100 ?ids, drop 100 ?ids]" .
  from l have "messages \<noteq> []" and "\<not> length messages \<le> 2" by auto
  then show "delete_messages PY2 cid messages =
          Inr [channels_messages_delete_bulk cid (take 100 ?ids),
               channels_messages_delete_bulk cid (drop 100 ?ids)]"
    by (simp add: delete_messages_def Let_def c)
  show "length (take 100 ?ids) = 100" using l by simp
  show "length (drop 100 ?ids) = 50" using l by simp
qed

lemma delete_messages_PY2_examples:
  "delete_messages PY2 7 [Msg \<lparr>msg_id = 11\<rparr>] = Inr [channels_messages_delete 7 11]
   \<and> delete_messages PY2 7 [Msg \<lparr>msg_id = 11\<rparr>, Id 12] =
       Inr [channels_messages_delete 7 11, channels_messages_delete 7 12]
   \<and> delete_messages PY2 7 [Id 1, Id 2, Id 3] = Inr [channels_messages_delete_bulk 7 [1, 2, 3]]
   \<and> delete_messages PY2 7 (map Id [1..150]) =
       Inr [channels_messages_delete_bulk 7 [1..100], channels_messages_delete_bulk 7 [101..150]]"
proof -
  have l1: "length [Msg \<lparr>msg_id = 11\<rparr>] = 1 \<or> length [Msg \<lparr>msg_id = 11\<rparr>] = 2"
    by simp
  have l2: "length [Msg \<lparr>msg_id = 11\<rparr>, Id 12] = 1 \<or> length [Msg \<lparr>msg_id = 11\<rparr>, Id 12] = 2"
    by simp
  have l3: "2 < length [Id 1, Id 2, Id 3]"
    by simp
  have l150: "length (map Id [1..150]) = 150"
    by simp
  have ids: "map to_snowflake (map Id [1..150]) = [1..150]"
    by (simp add: comp_def)
  have sp: "[1..150::int] = [1..100] @ [101..150]"
    using upto_split2 [of 1 100 150] by simp
  have t: "take 100 [1..150::int] = [1..100]"
    unfolding sp by simp
  have d: "drop 100 [1..150::int] = [101..150]"
    unfolding sp by simp
  have a: "delete_messages PY2 7 [Msg \<lparr>msg_id = 11\<rparr>] = Inr [channels_messages_delete 7 11]"
    using delete_messages_PY2_policy [of "[Msg \<lparr>msg_id = 11\<rparr>]" 7] l1 by simp
  have b: "delete_messages PY2 7 [Msg \<lparr>msg_id = 11\<rparr>, Id 12] =
       Inr [channels_messages_delete 7 11, channels_messages_delete 7 12]"
    using delete_messages_PY2_policy [of "[Msg \<lparr>msg_id = 11\<rparr>, Id 12]" 7] l2 by simp
  have c: "delete_messages PY2 7 [Id 1, Id 2, Id 3] = Inr [channels_messages_delete_bulk 7 [1, 2, 3]]"
    using delete_messages_PY2_policy [of "[Id 1, Id 2, Id 3]" 7] l3
    by (simp add: chunks_step chunks_Nil)
  have e: "delete_messages PY2 7 (map Id [1..150]) =
       Inr [channels_messages_delete_bulk 7 [1..100], channels_messages_delete_bulk 7 [101..150]]"
  proof -
    from delete_messages_PY2_policy [of "map Id [1..150]" 7] l150
    have "delete_messages PY2 7 (map Id [1..150]) =
       Inr [channels_messages_delete_bulk 7 (take 100 (map to_snowflake (map Id [1..150]))),
            channels_messages_delete_bulk 7 (drop 100 (map to_snowflake (map Id [1..150])))]"
      by blast
    then show ?thesis
      unfolding ids t d .
  qed
  show ?thesis
    using a b c e by simp
qed

section \<open>Message iterator: scanning a channel\<close>

lemma filter_before_nth:
  assumes "sorted_wrt (\<lambda>a b. msg_id a < msg_id b) h" and "k < length h"
  shows "filter (\<lambda>m. msg_id m < msg_id (h ! k)) h = take k h"
proof -
  have split: "h = take k h @ h ! k # drop (Suc k) h"
    using assms(2) by (simp add: id_take_nth_drop)
  have s: "sorted_wrt (\<lambda>a b. msg_id a < msg_id b) (take k h @ h ! k # drop (Suc k) h)"
    using assms(1) split by simp
  have lo: "\<forall>x \<in> set (take k h). msg_id x < msg_id (h ! k)"
    using s by (simp add: sorted_wrt_append)
  have hi: "\<forall>y \<in> set (drop (Suc k) h). msg_id (h ! k) < msg_id y"
    using s by (simp add: sorted_wrt_append)
  have a: "filter (\<lambda>m. msg_id m < msg_id (h ! k)) (take k h) = take k h"
    using lo by simp
  have b: "filter (\<lambda>m. msg_id m < msg_id (h ! k)) (drop (Suc k) h) = []"
    using hi by (auto simp: filter_empty_conv)
  have "filter (\<lambda>m. msg_id m < msg_id (h ! k)) (take k h @ h ! k # drop (Suc k) h) = take k h"
    by (simp add: a b)
  with split show ?thesis by simp
qed

lemma remote_history_newest:
  "remote_history h chan None None limit = Inr (rev (drop (length h - nat limit) h))"
  by (simp add: remote_history_def)

lemma remote_history_before_nth:
  assumes "sorted_wrt (\<lambda>a b. msg_id a < msg_id b) h" and "k < length h"
  shows "remote_history h chan (Some (msg_id (h ! k))) None limit =
           Inr (rev (drop (k - nat limit) (take k h)))"
  using assms by (simp add: remote_history_def filter_before_nth)

lemma last_rev_drop:
  "k < length h \<Longrightarrow> last (rev (drop k h)) = h ! k"
  by (simp add: last_rev hd_drop_conv_nth)


lemma yield_more_simps:
  "yield_more ys None = None"
  "yield_more ys (Some (Inl e)) = Some (Inl e)"
  "yield_more ys (Some (Inr zs)) = Some (Inr (ys @ zs))"
  by (simp_all add: yield_more_def)

lemma yield_more_Nil: "yield_more [] r = r"
  by (simp add: yield_more_def split: option.splits sum.splits)

lemma yield_more_append: "yield_more xs (yield_more ys r) = yield_more (xs @ ys) r"
  by (simp add: yield_more_def split: option.splits sum.splits)

lemma yield_more_eq_Some:
  "yield_more ys r = Some q \<Longrightarrow> \<exists>q'. r = Some q'"
  by (cases r) (simp_all add: yield_more_def)

lemma yield_more_eq_Some_Inr:
  "yield_more ys r = Some (Inr zs) \<Longrightarrow> \<exists>zs'. r = Some (Inr zs') \<and> zs = ys @ zs'"
  by (auto simp: yield_more_def split: option.splits sum.splits)

lemma yield_more_map:
  "yield_more (map f ys) (map_option (map_sum id (map f)) r) =
     map_option (map_sum id (map f)) (yield_more ys r)"
  by (simp add: yield_more_def split: option.splits sum.splits)

lemma iter_next_pop:
  "\<not> bulk s \<Longrightarrow> buffer s = xs @ [x] \<Longrightarrow>
     iter_next client s = (Inr (Single x), s\<lparr>buffer := xs\<rparr>)"
  by (simp add: iter_next_def)

lemma iter_next_bulk_fill:
  "bulk s \<Longrightarrow> buffer s = [] \<Longrightarrow>
     iter_next client s =
       (case fill client s of
          (Inl e, s') \<Rightarrow> (Inl e, s')
        | (Inr u, s') \<Rightarrow> (Inr (Batch (buffer s')), s'\<lparr>buffer := []\<rparr>))"
  by (simp add: iter_next_def fill_cases split: sum.splits)

lemma iter_next_single_fill:
  "\<not> bulk s \<Longrightarrow> buffer s = [] \<Longrightarrow>
     iter_next client s =
       (case fill client s of
          (Inl e, s') \<Rightarrow> (Inl e, s')
        | (Inr u, s') \<Rightarrow> (Inr (Single (last (buffer s'))), s'\<lparr>buffer := butlast (buffer s')\<rparr>))"
  by (simp add: iter_next_def fill_cases split: sum.splits)

lemma fill_bulk_irrelevant:
  "fill client (s\<lparr>bulk := x\<rparr>) = (fst (fill client s), (snd (fill client s))\<lparr>bulk := x\<rparr>)"
  by (simp add: fill_cases split: sum.splits)

lemma drain_pop:
  "\<not> bulk s \<Longrightarrow> buffer s = b \<Longrightarrow>
     drain client (length b + n) s =
       yield_more (map Single (rev b)) (drain client n (s\<lparr>buffer := []\<rparr>))"
proof (induction b arbitrary: s rule: rev_induct)
  case Nil
  then have "s\<lparr>buffer := []\<rparr> = s" by simp
  then show ?case by (simp add: yield_more_Nil)
next
  case (snoc x xs)
  have st: "iter_next client s = (Inr (Single x), s\<lparr>buffer := xs\<rparr>)"
    using snoc.prems by (rule iter_next_pop)
  have ih: "drain client (length xs + n) (s\<lparr>buffer := xs\<rparr>) =
      yield_more (map Single (rev xs)) (drain client n (s\<lparr>buffer := []\<rparr>))"
    using snoc.IH [of "s\<lparr>buffer := xs\<rparr>"] snoc.prems(1) by simp
  show ?case
    by (simp add: st ih yield_more_append)
qed

lemma drain_short:
  "\<not> bulk s \<Longrightarrow> n \<le> length (buffer s) \<Longrightarrow> drain client n s = None"
proof (induction n arbitrary: s)
  case 0
  then show ?case by simp
next
  case (Suc n)
  then obtain xs x where b: "buffer s = xs @ [x]"
    by (cases "buffer s" rule: rev_cases) auto
  have st: "iter_next client s = (Inr (Single x), s\<lparr>buffer := xs\<rparr>)"
    using Suc.prems(1) b by (rule iter_next_pop)
  have "drain client n (s\<lparr>buffer := xs\<rparr>) = None"
    using Suc.IH [of "s\<lparr>buffer := xs\<rparr>"] Suc.prems b by simp
  then show ?case
    by (simp add: st yield_more_simps)
qed

lemma drain_mono:
  "drain client n s = Some r \<Longrightarrow> drain client (n + k) s = Some r"
proof (induction n arbitrary: s r)
  case 0
  then show ?case by simp
next
  case (Suc n)
  obtain q s' where st: "iter_next client s = (q, s')"
    by (cases "iter_next client s")
  show ?case
  proof (cases q)
    case (Inl e)
    with st Suc.prems show ?thesis by simp
  next
    case (Inr y)
    with st Suc.prems have ym: "yield_more [y] (drain client n s') = Some r" by simp
    then obtain r' where r': "drain client n s' = Some r'"
      using yield_more_eq_Some by blast
    from Suc.IH [OF r'] have "drain client (n + k) s' = Some r'" .
    with st Inr ym r' show ?thesis by simp
  qed
qed

lemma drain_deterministic:
  assumes "drain client a s = Some r" and "drain client b s = Some r'"
  shows "r = r'"
proof -
  from drain_mono [OF assms(1), of b] have "drain client (a + b) s = Some r" .
  moreover from drain_mono [OF assms(2), of a] have "drain client (a + b) s = Some r'"
    by (simp add: add.commute)
  ultimately show ?thesis by simp
qed

lemma scan_mono:
  "scan client k s = Some r \<Longrightarrow> scan client (k + j) s = Some r"
proof (induction k arbitrary: s r)
  case 0
  then show ?case by simp
next
  case (Suc k)
  obtain q s' where f: "fill client s = (q, s')"
    by (cases "fill client s")
  show ?case
  proof (cases q)
    case (Inl e)
    with f Suc.prems show ?thesis by simp
  next
    case (Inr u)
    with f Suc.prems have ym: "yield_more [buffer s'] (scan client k (s'\<lparr>buffer := []\<rparr>)) = Some r"
      by simp
    then obtain r' where r': "scan client k (s'\<lparr>buffer := []\<rparr>) = Some r'"
      using yield_more_eq_Some by blast
    from Suc.IH [OF r'] have "scan client (k + j) (s'\<lparr>buffer := []\<rparr>) = Some r'" .
    with f Inr ym r' show ?thesis by simp
  qed
qed

lemma scan_bulk_irrelevant:
  "scan client k (s\<lparr>bulk := x\<rparr>) = scan client k s"
proof (induction k arbitrary: s)
  case 0
  then show ?case by simp
next
  case (Suc k)
  obtain q s' where f: "fill client s = (q, s')"
    by (cases "fill client s")
  have f': "fill client (s\<lparr>bulk := x\<rparr>) = (q, s'\<lparr>bulk := x\<rparr>)"
    by (simp add: fill_bulk_irrelevant f)
  have sw: "s'\<lparr>bulk := x, buffer := []\<rparr> = (s'\<lparr>buffer := []\<rparr>)\<lparr>bulk := x\<rparr>"
    by (rule MessageIterator.equality) simp_all
  have "scan client k (s'\<lparr>bulk := x, buffer := []\<rparr>) = scan client k (s'\<lparr>buffer := []\<rparr>)"
    unfolding sw by (rule Suc.IH)
  then show ?case
    by (cases q) (simp_all add: f f')
qed

lemma scan_nonempty_pages:
  "scan client k s = Some (Inr ps) \<Longrightarrow> [] \<notin> set ps"
proof (induction k arbitrary: s ps)
  case 0
  then show ?case by simp
next
  case (Suc k)
  obtain q s' where f: "fill client s = (q, s')"
    by (cases "fill client s")
  show ?case
  proof (cases q)
    case (Inl e)
    with f Suc.prems show ?thesis by (simp split: if_splits)
  next
    case (Inr u)
    with f Suc.prems have "yield_more [buffer s'] (scan client k (s'\<lparr>buffer := []\<rparr>)) = Some (Inr ps)"
      by simp
    then obtain ps' where
      p: "scan client k (s'\<lparr>buffer := []\<rparr>) = Some (Inr ps')" and e: "ps = buffer s' # ps'"
      using yield_more_eq_Some_Inr by fastforce
    from f Inr have "buffer s' \<noteq> []"
      using fill_success_fields(3) [of client s s'] by simp
    with Suc.IH [OF p] e show ?thesis by auto
  qed
qed

lemma drain_bulk_scan:
  "bulk s \<Longrightarrow> buffer s = [] \<Longrightarrow>
     drain client n s = map_option (map_sum id (map Batch)) (scan client n s)"
proof (induction n arbitrary: s)
  case 0
  then show ?case by simp
next
  case (Suc n)
  obtain q s' where f: "fill client s = (q, s')"
    by (cases "fill client s")
  show ?case
  proof (cases q)
    case (Inl e)
    with f Suc.prems show ?thesis
      by (simp add: iter_next_bulk_fill)
  next
    case (Inr u)
    have b: "bulk (s'\<lparr>buffer := []\<rparr>)"
      using fill_keeps(4) [of client s] f Suc.prems(1) by simp
    have e: "buffer (s'\<lparr>buffer := []\<rparr>) = []"
      by simp
    note ih = Suc.IH [OF b e]
    have "drain client (Suc n) s =
        yield_more (map Batch [buffer s']) (drain client n (s'\<lparr>buffer := []\<rparr>))"
      using f Inr Suc.prems by (simp add: iter_next_bulk_fill)
    also have "\<dots> = map_option (map_sum id (map Batch))
        (yield_more [buffer s'] (scan client n (s'\<lparr>buffer := []\<rparr>)))"
      unfolding ih by (rule yield_more_map)
    also have "\<dots> = map_option (map_sum id (map Batch)) (scan client (Suc n) s)"
      using f Inr by simp
    finally show ?thesis .
  qed
qed

lemma drain_single_of_scan:
  "\<not> bulk s \<Longrightarrow> buffer s = [] \<Longrightarrow> scan client k s = Some (Inr ps) \<Longrightarrow>
     drain client (Suc (length (concat ps))) s = Some (Inr (map Single (concat (map rev ps))))"
proof (induction k arbitrary: s ps)
  case 0
  then show ?case by simp
next
  case (Suc k)
  obtain q s' where f: "fill client s = (q, s')"
    by (cases "fill client s")
  show ?case
  proof (cases q)
    case (Inl e)
    with f Suc.prems(3) have "e = StopIteration" and "ps = []"
      by (simp_all split: if_splits)
    with f Inl Suc.prems show ?thesis
      by (simp add: iter_next_single_fill)
  next
    case (Inr u)
    with f Suc.prems have "yield_more [buffer s'] (scan client k (s'\<lparr>buffer := []\<rparr>)) = Some (Inr ps)"
      by simp
    then obtain ps' where
      p: "scan client k (s'\<lparr>buffer := []\<rparr>) = Some (Inr ps')" and e: "ps = buffer s' # ps'"
      using yield_more_eq_Some_Inr by fastforce
    have nb: "\<not> bulk s'"
      using fill_keeps(4) [of client s] f Suc.prems(1) by simp
    from f Inr have ne: "buffer s' \<noteq> []"
      using fill_success_fields(3) [of client s s'] by simp
    then obtain xs x where b: "buffer s' = xs @ [x]"
      by (cases "buffer s'" rule: rev_cases) auto
    have st: "iter_next client s = (Inr (Single x), s'\<lparr>buffer := xs\<rparr>)"
      using f Inr Suc.prems(1,2) b by (simp add: iter_next_single_fill)
    have ih: "drain client (Suc (length (concat ps'))) (s'\<lparr>buffer := []\<rparr>) =
        Some (Inr (map Single (concat (map rev ps'))))"
      using Suc.IH [of "s'\<lparr>buffer := []\<rparr>" ps'] nb p by simp
    have pop: "drain client (length xs + Suc (length (concat ps'))) (s'\<lparr>buffer := xs\<rparr>) =
        yield_more (map Single (rev xs)) (drain client (Suc (length (concat ps'))) (s'\<lparr>buffer := []\<rparr>))"
      using drain_pop [of "s'\<lparr>buffer := xs\<rparr>" xs client "Suc (length (concat ps'))"] nb by simp
    have fuel: "Suc (length (concat ps)) = Suc (length xs + Suc (length (concat ps')))"
      by (simp add: e b)
    have "drain client (Suc (length xs + Suc (length (concat ps')))) s =
        yield_more [Single x]
          (drain client (length xs + Suc (length (concat ps'))) (s'\<lparr>buffer := xs\<rparr>))"
      by (simp only: drain.simps st prod.case sum.case)
    also have "\<dots> = yield_more [Single x]
          (yield_more (map Single (rev xs)) (Some (Inr (map Single (concat (map rev ps'))))))"
      by (simp only: pop ih)
    also have "\<dots> = Some (Inr (map Single (concat (map rev ps))))"
      by (simp add: yield_more_simps e b)
    finally show ?thesis
      unfolding fuel .
  qed
qed

lemma scan_of_drain_single:
  "\<not> bulk s \<Longrightarrow> buffer s = [] \<Longrightarrow> drain client m s = Some (Inr ss) \<Longrightarrow>
     \<exists>ps. scan client m s = Some (Inr ps)"
proof (induction m arbitrary: s ss rule: less_induct)
  case (less m)
  then obtain m' where m: "m = Suc m'"
    by (cases m) auto
  obtain q s' where f: "fill client s = (q, s')"
    by (cases "fill client s")
  show ?case
  proof (cases q)
    case (Inl e)
    with f m less.prems have "e = StopIteration"
      by (simp add: iter_next_single_fill split: if_splits)
    with Inl f m show ?thesis by simp
  next
    case (Inr u)
    have nb: "\<not> bulk s'"
      using fill_keeps(4) [of client s] f less.prems(1) by simp
    from f Inr have ne: "buffer s' \<noteq> []"
      using fill_success_fields(3) [of client s s'] by simp
    then obtain xs x where b: "buffer s' = xs @ [x]"
      by (cases "buffer s'" rule: rev_cases) auto
    have st: "iter_next client s = (Inr (Single x), s'\<lparr>buffer := xs\<rparr>)"
      using f Inr less.prems(1,2) b by (simp add: iter_next_single_fill)
    from less.prems(3) m st
    have "yield_more [Single x] (drain client m' (s'\<lparr>buffer := xs\<rparr>)) = Some (Inr ss)"
      by simp
    then obtain ss' where r': "drain client m' (s'\<lparr>buffer := xs\<rparr>) = Some (Inr ss')"
      using yield_more_eq_Some_Inr by fastforce
    have long: "length xs < m'"
    proof (rule ccontr)
      assume "\<not> length xs < m'"
      then have "drain client m' (s'\<lparr>buffer := xs\<rparr>) = None"
        using drain_short [of "s'\<lparr>buffer := xs\<rparr>" m' client] nb by simp
      with r' show False by simp
    qed
    then obtain n where n: "m' = length xs + n"
      using less_imp_add_positive by blast
    have "drain client (length xs + n) (s'\<lparr>buffer := xs\<rparr>) =
        yield_more (map Single (rev xs)) (drain client n (s'\<lparr>buffer := []\<rparr>))"
      using drain_pop [of "s'\<lparr>buffer := xs\<rparr>" xs client n] nb by simp
    with r' n have "yield_more (map Single (rev xs)) (drain client n (s'\<lparr>buffer := []\<rparr>)) = Some (Inr ss')"
      by simp
    then obtain ss'' where r'': "drain client n (s'\<lparr>buffer := []\<rparr>) = Some (Inr ss'')"
      using yield_more_eq_Some_Inr by fastforce
    have "n < m" using m n by simp
    from less.IH [OF this _ _ r''] nb
    obtain ps' where ps': "scan client n (s'\<lparr>buffer := []\<rparr>) = Some (Inr ps')"
      by auto
    from scan_mono [OF ps', of "length xs"] n
    have "scan client m' (s'\<lparr>buffer := []\<rparr>) = Some (Inr ps')"
      by (simp add: add.commute)
    with f Inr m show ?thesis by (simp add: yield_more_simps)
  qed
qed

text \<open>
  C3. In the \<open>UP\<close> direction a \<open>fill\<close> that fetched a non-empty page stores it, clears both
  cursors and sets \<open>before\<close> to the id of the page's last (oldest) message. Over a channel
  whose history, oldest first, is \<open>m1 .. m250\<close> (ids increasing), an iterator constructed
  with \<open>direction = UP\<close>, \<open>chunk_size = 100\<close> and no cursor fetches the pages
  \<open>[m250 .. m151]\<close>, \<open>[m150 .. m51]\<close>, \<open>[m50 .. m1]\<close> and then an empty page, on which it
  raises \<open>StopIteration\<close>. With \<open>bulk\<close> set, \<open>next\<close> yields these three pages and signals the
  end on the fourth pull; without it, the 250 messages are yielded singly (each page from
  its tail) and the end is signalled on pull 251.
\<close>

theorem paginator_UP_pages:
  assumes len: "length h = 250"
    and inc: "sorted_wrt (\<lambda>a b. msg_id a < msg_id b) h"
    and init: "MessageIterator_init chan UP blk None None 100 = Inr s0"
  shows "(direction self = UP
            \<and> client (channel self) (before self) (after self) (chunk_size self) = Inr page
            \<and> page \<noteq> [] \<longrightarrow>
          fill client self =
            (Inr (), self\<lparr>buffer := page, after := None, before := Some (msg_id (last page))\<rparr>))
       \<and> fill (remote_history h) s0 =
            (Inr (), s0\<lparr>buffer := rev (drop 150 h), before := Some (msg_id (h ! 150))\<rparr>)
       \<and> fill (remote_history h) (s0\<lparr>before := Some (msg_id (h ! 150))\<rparr>) =
            (Inr (), s0\<lparr>buffer := rev (take 100 (drop 50 h)), before := Some (msg_id (h ! 50))\<rparr>)
       \<and> fill (remote_history h) (s0\<lparr>before := Some (msg_id (h ! 50))\<rparr>) =
            (Inr (), s0\<lparr>buffer := rev (take 50 h), before := Some (msg_id (h ! 0))\<rparr>)
       \<and> fill (remote_history h) (s0\<lparr>before := Some (msg_id (h ! 0))\<rparr>) =
            (Inl StopIteration, s0\<lparr>before := Some (msg_id (h ! 0))\<rparr>)
       \<and> (blk \<longrightarrow>
            drain (remote_history h) 4 s0 =
              Some (Inr [Batch (rev (drop 150 h)), Batch (rev (take 100 (drop 50 h))),
                         Batch (rev (take 50 h))])
          \<and> drain (remote_history h) 3 s0 = None)
       \<and> (\<not> blk \<longrightarrow>
            drain (remote_history h) 251 s0 =
              Some (Inr (map Single (drop 150 h @ take 100 (drop 50 h) @ take 50 h))))"
proof -
  let ?c = "remote_history h"
  have s0: "s0 = \<lparr>channel = chan, direction = UP, bulk = blk, before = None, after = None,
                   chunk_size = 100, iter_last = None, buffer = []\<rparr>"
    using init by (simp add: MessageIterator_init_def)
  have gen: "direction self = UP
            \<and> client (channel self) (before self) (after self) (chunk_size self) = Inr page
            \<and> page \<noteq> [] \<longrightarrow>
          fill client self =
            (Inr (), self\<lparr>buffer := page, after := None, before := Some (msg_id (last page))\<rparr>)"
    by (simp add: fill_cases)
  have p1: "?c chan None None 100 = Inr (rev (drop 150 h))"
    using len by (simp add: remote_history_newest)
  have p2: "?c chan (Some (msg_id (h ! 150))) None 100 = Inr (rev (take 100 (drop 50 h)))"
    using len inc by (simp add: remote_history_before_nth drop_take)
  have p3: "?c chan (Some (msg_id (h ! 50))) None 100 = Inr (rev (take 50 h))"
    using len inc by (simp add: remote_history_before_nth)
  have p4: "?c chan (Some (msg_id (h ! 0))) None 100 = Inr []"
    using len inc by (simp add: remote_history_before_nth)
  have n1: "rev (drop 150 h) \<noteq> []" and n2: "rev (take 100 (drop 50 h)) \<noteq> []"
    and n3: "rev (take 50 h) \<noteq> []"
    using len by auto
  have l1: "last (rev (drop 150 h)) = h ! 150"
    using len by (simp add: last_rev_drop)
  have l2: "last (rev (take 100 (drop 50 h))) = h ! 50"
    using len by (simp add: last_rev hd_conv_nth)
  have ne: "h \<noteq> []"
    using len by auto
  have l3: "last (rev (take 50 h)) = h ! 0"
    using len ne by (simp add: last_rev hd_conv_nth)
  have f1: "fill ?c s0 = (Inr (), s0\<lparr>buffer := rev (drop 150 h), before := Some (msg_id (h ! 150))\<rparr>)"
    using n1 by (simp add: s0 fill_cases p1 l1)
  have f2: "fill ?c (s0\<lparr>before := Some (msg_id (h ! 150))\<rparr>) =
            (Inr (), s0\<lparr>buffer := rev (take 100 (drop 50 h)), before := Some (msg_id (h ! 50))\<rparr>)"
    using n2 by (simp add: s0 fill_cases p2 l2)
  have f3: "fill ?c (s0\<lparr>before := Some (msg_id (h ! 50))\<rparr>) =
            (Inr (), s0\<lparr>buffer := rev (take 50 h), before := Some (msg_id (h ! 0))\<rparr>)"
    using n3 by (simp add: s0 fill_cases p3 l3)
  have f4: "fill ?c (s0\<lparr>before := Some (msg_id (h ! 0))\<rparr>) =
            (Inl StopIteration, s0\<lparr>before := Some (msg_id (h ! 0))\<rparr>)"
    by (simp add: s0 fill_cases p4)
  have bulk_run: "drain ?c 4 s0 =
              Some (Inr [Batch (rev (drop 150 h)), Batch (rev (take 100 (drop 50 h))),
                         Batch (rev (take 50 h))])
          \<and> drain ?c 3 s0 = None" if b: "blk"
  proof -
    have e: "buffer s0 = []" "bulk s0" using b by (simp_all add: s0)
    have i1: "iter_next ?c s0 = (Inr (Batch (rev (drop 150 h))), s0\<lparr>before := Some (msg_id (h ! 150))\<rparr>)"
      using e by (simp add: iter_next_def f1; simp add: s0)
    have i2: "iter_next ?c (s0\<lparr>before := Some (msg_id (h ! 150))\<rparr>) =
        (Inr (Batch (rev (take 100 (drop 50 h)))), s0\<lparr>before := Some (msg_id (h ! 50))\<rparr>)"
      using e by (simp add: iter_next_def f2; simp add: s0)
    have i3: "iter_next ?c (s0\<lparr>before := Some (msg_id (h ! 50))\<rparr>) =
        (Inr (Batch (rev (take 50 h))), s0\<lparr>before := Some (msg_id (h ! 0))\<rparr>)"
      using e by (simp add: iter_next_def f3; simp add: s0)
    have i4: "iter_next ?c (s0\<lparr>before := Some (msg_id (h ! 0))\<rparr>) =
        (Inl StopIteration, s0\<lparr>before := Some (msg_id (h ! 0))\<rparr>)"
      using e by (simp add: iter_next_def f4)
    have four: "(4::nat) = Suc (Suc (Suc (Suc 0)))" and three: "(3::nat) = Suc (Suc (Suc 0))"
      by simp_all
    show ?thesis
      unfolding four three by (simp add: i1 i2 i3 i4 yield_more_def)
  qed
  have single_run: "drain ?c 251 s0 =
      Some (Inr (map Single (drop 150 h @ take 100 (drop 50 h) @ take 50 h)))" if b: "\<not> blk"
  proof -
    have e: "buffer s0 = []" "\<not> bulk s0" using b by (simp_all add: s0)
    have u1: "s0\<lparr>buffer := rev (drop 150 h), before := Some (msg_id (h ! 150)), buffer := []\<rparr>
               = s0\<lparr>before := Some (msg_id (h ! 150))\<rparr>"
      and u2: "s0\<lparr>buffer := rev (take 100 (drop 50 h)), before := Some (msg_id (h ! 50)), buffer := []\<rparr>
               = s0\<lparr>before := Some (msg_id (h ! 50))\<rparr>"
      and u3: "s0\<lparr>buffer := rev (take 50 h), before := Some (msg_id (h ! 0)), buffer := []\<rparr>
               = s0\<lparr>before := Some (msg_id (h ! 0))\<rparr>"
      by (simp_all add: s0)
    have sc: "scan ?c (Suc (Suc (Suc (Suc 0)))) s0 =
        Some (Inr [rev (drop 150 h), rev (take 100 (drop 50 h)), rev (take 50 h)])"
      by (simp add: f1 f2 f3 f4 u1 u2 u3 yield_more_simps)
    have n: "Suc (length (concat [rev (drop 150 h), rev (take 100 (drop 50 h)), rev (take 50 h)])) = 251"
      using len by simp
    from drain_single_of_scan [OF e(2) e(1) sc] show ?thesis
      unfolding n by simp
  qed
  show ?thesis
    using gen f1 f2 f3 f4 bulk_run single_run by blast
qed

theorem paginator_UP_pages_witness:
  "drain (remote_history (map (\<lambda>i. \<lparr>msg_id = i\<rparr>) [1..250])) 4
     \<lparr>channel = 7, direction = UP, bulk = True, before = None, after = None,
      chunk_size = 100, iter_last = None, buffer = []\<rparr>
   = Some (Inr [Batch (rev (drop 150 (map (\<lambda>i. \<lparr>msg_id = i\<rparr>) [1..250]))),
                Batch (rev (take 100 (drop 50 (map (\<lambda>i. \<lparr>msg_id = i\<rparr>) [1..250])))),
                Batch (rev (take 50 (map (\<lambda>i. \<lparr>msg_id = i\<rparr>) [1..250])))])"
proof -
  let ?h = "map (\<lambda>i. \<lparr>msg_id = i\<rparr>) [1..250]"
  let ?s0 = "\<lparr>channel = 7, direction = UP, bulk = True, before = None, after = None,
      chunk_size = 100, iter_last = None, buffer = []\<rparr>"
  have len: "length ?h = 250"
    by simp
  have inc: "sorted_wrt (\<lambda>a b. msg_id a < msg_id b) ?h"
    by (simp add: sorted_wrt_map)
  have init: "MessageIterator_init 7 UP True None None 100 = Inr ?s0"
    by (simp add: MessageIterator_init_def)
  from paginator_UP_pages [OF len inc init] show ?thesis
    by blast
qed

section \<open>Message iterator: bulk and per-message yielding\<close>

lemma messages_of_Single: "concat (map messages_of (map Single xs)) = xs"
  by (induction xs) simp_all

lemma messages_of_Batch: "concat (map messages_of (map Batch ps)) = concat ps"
  by (induction ps) simp_all

lemma rev_messages_of_Batch:
  "concat (map (\<lambda>b. rev (messages_of b)) (map Batch ps)) = concat (map rev ps)"
  by (induction ps) simp_all

lemma length_concat_rev: "length (concat (map rev ps)) = length (concat ps)"
  by (induction ps) simp_all

lemma fetches_bulk_irrelevant:
  "fetches client k (s\<lparr>bulk := x\<rparr>) = fetches client k s"
proof (induction k arbitrary: s)
  case 0
  then show ?case by simp
next
  case (Suc k)
  obtain q s' where f: "fill client s = (q, s')"
    by (cases "fill client s")
  have f': "fill client (s\<lparr>bulk := x\<rparr>) = (q, s'\<lparr>bulk := x\<rparr>)"
    by (simp add: fill_bulk_irrelevant f)
  have sw: "s'\<lparr>bulk := x, buffer := []\<rparr> = (s'\<lparr>buffer := []\<rparr>)\<lparr>bulk := x\<rparr>"
    by (rule MessageIterator.equality) simp_all
  have "fetches client k (s'\<lparr>bulk := x, buffer := []\<rparr>) = fetches client k (s'\<lparr>buffer := []\<rparr>)"
    unfolding sw by (rule Suc.IH)
  then show ?case
    by (cases q) (simp_all add: f f')
qed

lemma fetches_nonempty_pages: "[] \<notin> set (fetches client k s)"
proof (induction k arbitrary: s)
  case 0
  then show ?case by simp
next
  case (Suc k)
  obtain q s' where f: "fill client s = (q, s')"
    by (cases "fill client s")
  show ?case
  proof (cases q)
    case (Inl e)
    with f show ?thesis by simp
  next
    case (Inr u)
    with f have "buffer s' \<noteq> []"
      using fill_success_fields(3) [of client s s'] by simp
    with Suc.IH [of "s'\<lparr>buffer := []\<rparr>"] f Inr show ?thesis by auto
  qed
qed

lemma pulls_bulk_fetches:
  "bulk s \<Longrightarrow> buffer s = [] \<Longrightarrow> pulls client k s = map Batch (fetches client k s)"
proof (induction k arbitrary: s)
  case 0
  then show ?case by simp
next
  case (Suc k)
  obtain q s' where f: "fill client s = (q, s')"
    by (cases "fill client s")
  show ?case
  proof (cases q)
    case (Inl e)
    with f Suc.prems show ?thesis
      by (simp add: iter_next_bulk_fill)
  next
    case (Inr u)
    have b: "bulk (s'\<lparr>buffer := []\<rparr>)"
      using fill_keeps(4) [of client s] f Suc.prems(1) by simp
    have "pulls client k (s'\<lparr>buffer := []\<rparr>) = map Batch (fetches client k (s'\<lparr>buffer := []\<rparr>))"
      using Suc.IH [OF b] by simp
    with f Inr Suc.prems show ?thesis
      by (simp add: iter_next_bulk_fill)
  qed
qed

lemma pulls_pop:
  "\<not> bulk s \<Longrightarrow> buffer s = b \<Longrightarrow>
     pulls client (length b + n) s = map Single (rev b) @ pulls client n (s\<lparr>buffer := []\<rparr>)"
proof (induction b arbitrary: s rule: rev_induct)
  case Nil
  then have "s\<lparr>buffer := []\<rparr> = s" by simp
  then show ?case by simp
next
  case (snoc x xs)
  have st: "iter_next client s = (Inr (Single x), s\<lparr>buffer := xs\<rparr>)"
    using snoc.prems by (rule iter_next_pop)
  have ih: "pulls client (length xs + n) (s\<lparr>buffer := xs\<rparr>) =
      map Single (rev xs) @ pulls client n (s\<lparr>buffer := []\<rparr>)"
    using snoc.IH [of "s\<lparr>buffer := xs\<rparr>"] snoc.prems(1) by simp
  show ?case
    by (simp add: st ih)
qed

lemma pulls_single_fetches:
  "\<not> bulk s \<Longrightarrow> buffer s = [] \<Longrightarrow>
     pulls client (length (concat (fetches client k s))) s =
       map Single (concat (map rev (fetches client k s)))"
proof (induction k arbitrary: s)
  case 0
  then show ?case by simp
next
  case (Suc k)
  obtain q s' where f: "fill client s = (q, s')"
    by (cases "fill client s")
  show ?case
  proof (cases q)
    case (Inl e)
    with f show ?thesis by simp
  next
    case (Inr u)
    let ?rest = "fetches client k (s'\<lparr>buffer := []\<rparr>)"
    have nb: "\<not> bulk s'"
      using fill_keeps(4) [of client s] f Suc.prems(1) by simp
    from f Inr have ne: "buffer s' \<noteq> []"
      using fill_success_fields(3) [of client s s'] by simp
    then obtain xs x where b: "buffer s' = xs @ [x]"
      by (cases "buffer s'" rule: rev_cases) auto
    have fe: "fetches client (Suc k) s = (xs @ [x]) # ?rest"
      using f Inr b by simp
    have st: "iter_next client s = (Inr (Single x), s'\<lparr>buffer := xs\<rparr>)"
      using f Inr Suc.prems(1,2) b by (simp add: iter_next_single_fill)
    have ih: "pulls client (length (concat ?rest)) (s'\<lparr>buffer := []\<rparr>) =
        map Single (concat (map rev ?rest))"
      using Suc.IH [of "s'\<lparr>buffer := []\<rparr>"] nb by simp
    have pop: "pulls client (length xs + length (concat ?rest)) (s'\<lparr>buffer := xs\<rparr>) =
        map Single (rev xs) @ pulls client (length (concat ?rest)) (s'\<lparr>buffer := []\<rparr>)"
      using pulls_pop [of "s'\<lparr>buffer := xs\<rparr>" xs client "length (concat ?rest)"] nb by simp
    have fuel: "length (concat (fetches client (Suc k) s)) = Suc (length xs + length (concat ?rest))"
      unfolding fe by simp
    have "pulls client (Suc (length xs + length (concat ?rest))) s =
        Single x # pulls client (length xs + length (concat ?rest)) (s'\<lparr>buffer := xs\<rparr>)"
      by (simp only: pulls.simps st prod.case sum.case)
    also have "\<dots> = Single x # map Single (rev xs) @ map Single (concat (map rev ?rest))"
      by (simp only: pop ih)
    also have "\<dots> = map Single (concat (map rev (fetches client (Suc k) s)))"
      unfolding fe by simp
    finally show ?thesis
      unfolding fuel .
  qed
qed

text \<open>
  Against the remote end over a fixed history, an \<open>UP\<close> scan ends: every successful fetch
  moves \<open>before\<close> to a message of the page, so fewer messages remain older than it.
\<close>

lemma scan_UP_ends_no_after:
  "direction s = UP \<Longrightarrow> after s = None \<Longrightarrow> \<exists>k ps. scan (remote_history h) k s = Some (Inr ps)"
proof (induction "length (case before s of None \<Rightarrow> h | Some b \<Rightarrow> filter (\<lambda>m. msg_id m < b) h)"
    arbitrary: s rule: less_induct)
  case less
  let ?older = "case before s of None \<Rightarrow> h | Some b \<Rightarrow> filter (\<lambda>m. msg_id m < b) h"
  let ?page = "rev (drop (length ?older - nat (chunk_size s)) ?older)"
  have fetch: "remote_history h (channel s) (before s) (after s) (chunk_size s) = Inr ?page"
    using less.prems(2) by (simp add: remote_history_def Let_def)
  show ?case
  proof (cases "?page = []")
    case True
    then have "fill (remote_history h) s = (Inl StopIteration, s\<lparr>buffer := []\<rparr>)"
      using fill_page [of "remote_history h" s, OF fetch] by simp
    then have "scan (remote_history h) (Suc 0) s = Some (Inr [])"
      by simp
    then show ?thesis by blast
  next
    case False
    let ?x = "last ?page"
    let ?s' = "s\<lparr>buffer := ?page, after := None, before := Some (msg_id ?x)\<rparr>"
    have f: "fill (remote_history h) s = (Inr (), ?s')"
      using fill_page [of "remote_history h" s, OF fetch] False less.prems(1) by simp
    have "?x \<in> set ?page"
      using False by (rule last_in_set)
    then have x_older: "?x \<in> set ?older"
      by (auto dest: in_set_dropD)
    have same: "filter (\<lambda>m. msg_id m < msg_id ?x) h = filter (\<lambda>m. msg_id m < msg_id ?x) ?older"
    proof (cases "before s")
      case None
      then show ?thesis by simp
    next
      case (Some b)
      with x_older have "msg_id ?x < b" by simp
      then have "filter (\<lambda>m. msg_id m < msg_id ?x) (filter (\<lambda>m. msg_id m < b) h) =
          filter (\<lambda>m. msg_id m < msg_id ?x) h"
        by (auto intro: filter_cong)
      with Some show ?thesis by simp
    qed
    have "length (filter (\<lambda>m. msg_id m < msg_id ?x) ?older) < length ?older"
      by (rule length_filter_less [OF x_older]) (rule less_irrefl)
    with same have less': "length (filter (\<lambda>m. msg_id m < msg_id ?x) h) < length ?older"
      by simp
    have "\<exists>k ps. scan (remote_history h) k (?s'\<lparr>buffer := []\<rparr>) = Some (Inr ps)"
      using less.hyps [of "?s'\<lparr>buffer := []\<rparr>"] less' less.prems(1) by simp
    then obtain k ps where "scan (remote_history h) k (?s'\<lparr>buffer := []\<rparr>) = Some (Inr ps)"
      by blast
    then have "scan (remote_history h) (Suc k) s = Some (Inr (?page # ps))"
      using f by (simp add: yield_more_simps)
    then show ?thesis by blast
  qed
qed

lemma scan_UP_ends:
  assumes "direction s = UP"
  shows "\<exists>k ps. scan (remote_history h) k s = Some (Inr ps)"
proof -
  obtain q s' where f: "fill (remote_history h) s = (q, s')"
    by (cases "fill (remote_history h) s")
  have no_failure: "\<exists>page. remote_history h (channel s) (before s) (after s) (chunk_size s) = Inr page"
    by (simp add: remote_history_def Let_def split: option.splits)
  show ?thesis
  proof (cases q)
    case (Inl e)
    with f no_failure have "e = StopIteration"
      by (auto simp: fill_cases split: if_splits)
    with f Inl have "scan (remote_history h) (Suc 0) s = Some (Inr [])"
      by simp
    then show ?thesis by blast
  next
    case (Inr u)
    with f have "fill (remote_history h) s = (Inr (), s')" by simp
    note fs = fill_success_fields [OF this]
    have "direction (s'\<lparr>buffer := []\<rparr>) = UP" and "after (s'\<lparr>buffer := []\<rparr>) = None"
      using fs assms by simp_all
    from scan_UP_ends_no_after [OF this]
    obtain k ps where "scan (remote_history h) k (s'\<lparr>buffer := []\<rparr>) = Some (Inr ps)"
      by blast
    then have "scan (remote_history h) (Suc k) s = Some (Inr (buffer s' # ps))"
      using f Inr by (simp add: yield_more_simps)
    then show ?thesis by blast
  qed
qed


text \<open>
  A \<open>DOWN\<close> scan whose cursors have been cleared (as they are after its first successful
  \<open>fill\<close>) never ends over a non-empty history when at least one message is requested per
  fetch: every fetch is the cursorless one and returns the newest page again.
\<close>

lemma iter_next_DOWN_cleared:
  assumes "direction s = DOWN" and "before s = None" and "after s = None"
    and "1 \<le> chunk_size s" and "h \<noteq> []"
  shows "\<exists>y s'. iter_next (remote_history h) s = (Inr y, s')
           \<and> direction s' = DOWN \<and> before s' = None \<and> after s' = None
           \<and> chunk_size s' = chunk_size s"
proof (cases "buffer s = []")
  case True
  let ?page = "rev (drop (length h - nat (chunk_size s)) h)"
  have fetch: "remote_history h (channel s) (before s) (after s) (chunk_size s) = Inr ?page"
    using assms(2,3) by (simp add: remote_history_def)
  have "length h - nat (chunk_size s) < length h"
    using assms(4,5) by (cases h) auto
  then have ne: "?page \<noteq> []"
    by simp
  have f: "fill (remote_history h) s = (Inr (), s\<lparr>buffer := rev ?page, after := None, before := None\<rparr>)"
    using fill_page [of "remote_history h" s, OF fetch] ne assms(1) by simp
  show ?thesis
    using True ne assms by (cases "bulk s") (simp_all add: iter_next_def f)
next
  case False
  then show ?thesis
    using assms by (cases "bulk s") (simp_all add: iter_next_def)
qed

lemma drain_DOWN_never_ends:
  assumes "direction s = DOWN" and "before s = None" and "after s = None"
    and "1 \<le> chunk_size s" and "h \<noteq> []"
  shows "drain (remote_history h) n s = None"
  using assms
proof (induction n arbitrary: s)
  case 0
  then show ?case by simp
next
  case (Suc n)
  from iter_next_DOWN_cleared [OF Suc.prems]
  obtain y s' where st: "iter_next (remote_history h) s = (Inr y, s')"
    and inv: "direction s' = DOWN" "before s' = None" "after s' = None"
      "chunk_size s' = chunk_size s"
    by blast
  have "drain (remote_history h) n s' = None"
    using Suc.IH [of s'] inv Suc.prems(4,5) by simp
  then show ?case
    by (simp add: st yield_more_simps)
qed

text \<open>
  C7. Two iterators that differ only in \<open>bulk\<close> and start with an empty buffer run the
  same scan against the same remote end, in either direction. With \<open>bulk\<close> set, a pull
  that fetches yields the whole stored page as one batch. After any number \<open>k\<close> of
  fetches, ended or not, the batches yielded so far are the \<open>k\<close> pages fetched, and the
  per-message iterator has yielded, in as many pulls as these pages hold messages, exactly
  their messages (each page from its tail): the totals agree at every page boundary. The
  two consumers reach \<open>StopIteration\<close> together, and then the batches hold as many
  messages in total as were yielded one at a time. Over a fixed history an \<open>UP\<close> scan does
  reach it, in both modes.
\<close>

theorem bulk_and_single_totals:
  assumes "buffer s = []"
  shows "(\<forall>s'. fill client (s\<lparr>bulk := True\<rparr>) = (Inr (), s') \<longrightarrow>
            iter_next client (s\<lparr>bulk := True\<rparr>) = (Inr (Batch (buffer s')), s'\<lparr>buffer := []\<rparr>))
       \<and> (\<forall>k. pulls client k (s\<lparr>bulk := True\<rparr>) = map Batch (fetches client k s)
            \<and> pulls client (length (concat (fetches client k s))) (s\<lparr>bulk := False\<rparr>) =
                map Single (concat (map rev (fetches client k s)))
            \<and> length (concat (map messages_of (pulls client k (s\<lparr>bulk := True\<rparr>)))) =
                length (concat (map messages_of
                  (pulls client (length (concat (fetches client k s))) (s\<lparr>bulk := False\<rparr>)))))
       \<and> ((\<exists>n bs. drain client n (s\<lparr>bulk := True\<rparr>) = Some (Inr bs)) \<longleftrightarrow>
          (\<exists>m ss. drain client m (s\<lparr>bulk := False\<rparr>) = Some (Inr ss)))
       \<and> (\<forall>n m bs ss.
            drain client n (s\<lparr>bulk := True\<rparr>) = Some (Inr bs)
          \<and> drain client m (s\<lparr>bulk := False\<rparr>) = Some (Inr ss) \<longrightarrow>
            length (concat (map messages_of bs)) = length (concat (map messages_of ss))
          \<and> concat (map messages_of ss) = concat (map (\<lambda>b. rev (messages_of b)) bs)
          \<and> (\<forall>b \<in> set bs. \<exists>p. b = Batch p \<and> p \<noteq> [])
          \<and> (\<forall>y \<in> set ss. \<exists>msg. y = Single msg))
       \<and> (direction s = UP \<longrightarrow>
            (\<exists>n bs. drain (remote_history h) n (s\<lparr>bulk := True\<rparr>) = Some (Inr bs))
          \<and> (\<exists>m ss. drain (remote_history h) m (s\<lparr>bulk := False\<rparr>) = Some (Inr ss)))"
proof -
  let ?B = "s\<lparr>bulk := True\<rparr>" and ?S = "s\<lparr>bulk := False\<rparr>"
  have B: "bulk ?B" "buffer ?B = []" and S: "\<not> bulk ?S" "buffer ?S = []"
    using assms by simp_all
  have dB: "drain c n ?B = map_option (map_sum id (map Batch)) (scan c n s)" for c n
    using drain_bulk_scan [OF B, of c n] by (simp only: scan_bulk_irrelevant)
  have B_of_scan: "drain c n ?B = Some (Inr (map Batch ps))" if "scan c n s = Some (Inr ps)" for c n ps
    unfolding dB that by simp
  have scan_of_B: "\<exists>ps. scan c n s = Some (Inr ps) \<and> bs = map Batch ps"
    if "drain c n ?B = Some (Inr bs)" for c n bs
  proof (cases "scan c n s")
    case None
    with that show ?thesis unfolding dB by simp
  next
    case (Some r)
    with that show ?thesis unfolding dB by (cases r) auto
  qed
  have S_of_scan: "drain c (Suc (length (concat ps))) ?S =
      Some (Inr (map Single (concat (map rev ps))))" if "scan c k s = Some (Inr ps)" for c k ps
    using drain_single_of_scan [OF S, of c k ps] that by (simp add: scan_bulk_irrelevant)
  have scan_of_S: "\<exists>ps. scan c m s = Some (Inr ps)" if "drain c m ?S = Some (Inr ss)" for c m ss
    using scan_of_drain_single [OF S that] by (simp add: scan_bulk_irrelevant)
  have c1: "\<forall>s'. fill client ?B = (Inr (), s') \<longrightarrow>
            iter_next client ?B = (Inr (Batch (buffer s')), s'\<lparr>buffer := []\<rparr>)"
    using B by (simp add: iter_next_bulk_fill)
  have c2: "pulls client k ?B = map Batch (fetches client k s)
            \<and> pulls client (length (concat (fetches client k s))) ?S =
                map Single (concat (map rev (fetches client k s)))
            \<and> length (concat (map messages_of (pulls client k ?B))) =
                length (concat (map messages_of
                  (pulls client (length (concat (fetches client k s))) ?S)))" for k
  proof -
    have pb: "pulls client k ?B = map Batch (fetches client k s)"
      using pulls_bulk_fetches [OF B, of client k] by (simp only: fetches_bulk_irrelevant)
    have ps: "pulls client (length (concat (fetches client k s))) ?S =
        map Single (concat (map rev (fetches client k s)))"
      using pulls_single_fetches [OF S, of client k] by (simp only: fetches_bulk_irrelevant)
    have "length (concat (map messages_of (pulls client k ?B))) =
        length (concat (map messages_of (pulls client (length (concat (fetches client k s))) ?S)))"
      by (simp only: pb ps messages_of_Batch messages_of_Single length_concat_rev)
    with pb ps show ?thesis by blast
  qed
  have c3: "(\<exists>n bs. drain client n ?B = Some (Inr bs)) \<longleftrightarrow>
      (\<exists>m ss. drain client m ?S = Some (Inr ss))"
  proof
    assume "\<exists>n bs. drain client n ?B = Some (Inr bs)"
    then obtain n ps where "scan client n s = Some (Inr ps)"
      using scan_of_B by blast
    from S_of_scan [OF this] show "\<exists>m ss. drain client m ?S = Some (Inr ss)"
      by blast
  next
    assume "\<exists>m ss. drain client m ?S = Some (Inr ss)"
    then obtain m ps where "scan client m s = Some (Inr ps)"
      using scan_of_S by blast
    from B_of_scan [OF this] show "\<exists>n bs. drain client n ?B = Some (Inr bs)"
      by blast
  qed
  have c4: "length (concat (map messages_of bs)) = length (concat (map messages_of ss))
          \<and> concat (map messages_of ss) = concat (map (\<lambda>b. rev (messages_of b)) bs)
          \<and> (\<forall>b \<in> set bs. \<exists>p. b = Batch p \<and> p \<noteq> [])
          \<and> (\<forall>y \<in> set ss. \<exists>msg. y = Single msg)"
    if b: "drain client n ?B = Some (Inr bs)" and sg: "drain client m ?S = Some (Inr ss)"
    for n m bs ss
  proof -
    from scan_of_B [OF b] obtain ps where ps: "scan client n s = Some (Inr ps)"
      and bs: "bs = map Batch ps"
      by blast
    have ne: "[] \<notin> set ps"
      using ps by (rule scan_nonempty_pages)
    have ss: "ss = map Single (concat (map rev ps))"
      using drain_deterministic [OF sg S_of_scan [OF ps]] by simp
    have m1: "concat (map messages_of bs) = concat ps"
      unfolding bs by (rule messages_of_Batch)
    have m2: "concat (map messages_of ss) = concat (map rev ps)"
      unfolding ss by (rule messages_of_Single)
    have m3: "concat (map (\<lambda>b. rev (messages_of b)) bs) = concat (map rev ps)"
      unfolding bs by (rule rev_messages_of_Batch)
    have t1: "length (concat (map messages_of bs)) = length (concat (map messages_of ss))"
      by (simp only: m1 m2 length_concat_rev)
    have t2: "concat (map messages_of ss) = concat (map (\<lambda>b. rev (messages_of b)) bs)"
      by (simp only: m2 m3)
    have t3: "\<forall>b \<in> set bs. \<exists>p. b = Batch p \<and> p \<noteq> []"
      using ne by (auto simp: bs)
    have t4: "\<forall>y \<in> set ss. \<exists>msg. y = Single msg"
      by (auto simp: ss)
    show ?thesis
      using t1 t2 t3 t4 by blast
  qed
  have c5: "(\<exists>n bs. drain (remote_history h) n ?B = Some (Inr bs))
          \<and> (\<exists>m ss. drain (remote_history h) m ?S = Some (Inr ss))" if "direction s = UP"
  proof -
    from scan_UP_ends [OF that, of h]
    obtain k ps where sc: "scan (remote_history h) k s = Some (Inr ps)"
      by blast
    from B_of_scan [OF sc] S_of_scan [OF sc] show ?thesis
      by blast
  qed
  show ?thesis
    using c1 c2 c3 c4 c5 by blast
qed

theorem bulk_and_single_totals_witness:
  "drain (remote_history [\<lparr>msg_id = 1\<rparr>, \<lparr>msg_id = 2\<rparr>, \<lparr>msg_id = 3\<rparr>]) (Suc (Suc (Suc 0)))
     \<lparr>channel = 7, direction = UP, bulk = True, before = None, after = None,
      chunk_size = 2, iter_last = None, buffer = []\<rparr>
   = Some (Inr [Batch [\<lparr>msg_id = 3\<rparr>, \<lparr>msg_id = 2\<rparr>], Batch [\<lparr>msg_id = 1\<rparr>]])
   \<and> drain (remote_history [\<lparr>msg_id = 1\<rparr>, \<lparr>msg_id = 2\<rparr>, \<lparr>msg_id = 3\<rparr>]) (Suc (Suc (Suc (Suc 0))))
     \<lparr>channel = 7, direction = UP, bulk = False, before = None, after = None,
      chunk_size = 2, iter_last = None, buffer = []\<rparr>
   = Some (Inr [Single \<lparr>msg_id = 2\<rparr>, Single \<lparr>msg_id = 3\<rparr>, Single \<lparr>msg_id = 1\<rparr>])
   \<and> length (concat (map messages_of [Batch [\<lparr>msg_id = 3\<rparr>, \<lparr>msg_id = 2\<rparr>], Batch [\<lparr>msg_id = 1\<rparr>]]))
     = length (concat (map messages_of
         [Single \<lparr>msg_id = 2\<rparr>, Single \<lparr>msg_id = 3\<rparr>, Single \<lparr>msg_id = 1\<rparr>]))
   \<and> pulls (remote_history [\<lparr>msg_id = 1\<rparr>, \<lparr>msg_id = 2\<rparr>, \<lparr>msg_id = 3\<rparr>]) (Suc (Suc 0))
     \<lparr>channel = 7, direction = DOWN, bulk = True, before = None, after = Some 1,
      chunk_size = 2, iter_last = None, buffer = []\<rparr>
     = [Batch [\<lparr>msg_id = 2\<rparr>, \<lparr>msg_id = 3\<rparr>], Batch [\<lparr>msg_id = 2\<rparr>, \<lparr>msg_id = 3\<rparr>]]
   \<and> pulls (remote_history [\<lparr>msg_id = 1\<rparr>, \<lparr>msg_id = 2\<rparr>, \<lparr>msg_id = 3\<rparr>]) (Suc (Suc (Suc (Suc 0))))
     \<lparr>channel = 7, direction = DOWN, bulk = False, before = None, after = Some 1,
      chunk_size = 2, iter_last = None, buffer = []\<rparr>
     = [Single \<lparr>msg_id = 3\<rparr>, Single \<lparr>msg_id = 2\<rparr>, Single \<lparr>msg_id = 3\<rparr>, Single \<lparr>msg_id = 2\<rparr>]"
proof -
  let ?c = "remote_history [\<lparr>msg_id = 1\<rparr>, \<lparr>msg_id = 2\<rparr>, \<lparr>msg_id = 3\<rparr>]"
  let ?u = "\<lparr>channel = 7, direction = UP, bulk = False, before = None, after = None,
      chunk_size = 2, iter_last = None, buffer = []\<rparr>"
  let ?d = "\<lparr>channel = 7, direction = DOWN, bulk = False, before = None, after = Some 1,
      chunk_size = 2, iter_last = None, buffer = []\<rparr>"
  let ?bs = "[Batch [\<lparr>msg_id = 3\<rparr>, \<lparr>msg_id = 2\<rparr>], Batch [\<lparr>msg_id = 1\<rparr>]]"
  let ?ss = "[Single \<lparr>msg_id = 2\<rparr>, Single \<lparr>msg_id = 3\<rparr>, Single \<lparr>msg_id = 1\<rparr>]"
  have eu: "buffer ?u = []" and ed: "buffer ?d = []"
    by simp_all
  have b: "drain ?c (Suc (Suc (Suc 0))) (?u\<lparr>bulk := True\<rparr>) = Some (Inr ?bs)"
    by (simp add: iter_next_def fill_cases remote_history_def yield_more_def Let_def)
  have sg: "drain ?c (Suc (Suc (Suc (Suc 0)))) (?u\<lparr>bulk := False\<rparr>) = Some (Inr ?ss)"
    by (simp add: iter_next_def fill_cases remote_history_def yield_more_def Let_def)
  from bulk_and_single_totals [OF eu, of ?c] b sg
  have tot: "length (concat (map messages_of ?bs)) = length (concat (map messages_of ?ss))"
    by blast
  have fd: "fetches ?c (Suc (Suc 0)) ?d =
      [[\<lparr>msg_id = 2\<rparr>, \<lparr>msg_id = 3\<rparr>], [\<lparr>msg_id = 2\<rparr>, \<lparr>msg_id = 3\<rparr>]]"
    by (simp add: fill_cases remote_history_def Let_def)
  from bulk_and_single_totals [OF ed, of ?c]
  have "pulls ?c (Suc (Suc 0)) (?d\<lparr>bulk := True\<rparr>) = map Batch (fetches ?c (Suc (Suc 0)) ?d)"
    and "pulls ?c (length (concat (fetches ?c (Suc (Suc 0)) ?d))) (?d\<lparr>bulk := False\<rparr>) =
      map Single (concat (map rev (fetches ?c (Suc (Suc 0)) ?d)))"
    by blast+
  then have pd: "pulls ?c (Suc (Suc 0)) (?d\<lparr>bulk := True\<rparr>) =
      [Batch [\<lparr>msg_id = 2\<rparr>, \<lparr>msg_id = 3\<rparr>], Batch [\<lparr>msg_id = 2\<rparr>, \<lparr>msg_id = 3\<rparr>]]"
    and sd: "pulls ?c (Suc (Suc (Suc (Suc 0)))) (?d\<lparr>bulk := False\<rparr>) =
      [Single \<lparr>msg_id = 3\<rparr>, Single \<lparr>msg_id = 2\<rparr>, Single \<lparr>msg_id = 3\<rparr>, Single \<lparr>msg_id = 2\<rparr>]"
    unfolding fd by simp_all
  show ?thesis
    using b sg tot pd sd by simp
qed

end
